theory Spec2Isabelle
  imports
    Complex_Main
    "HOL-Library.Multiset"
    "HOL-Library.Char_ord"
    "HOL-Library.List_Lexorder"
    "HOL-Library.AList"
begin

section \<open>JSON values\<close>

text \<open>
  The settings files are decoded by \<^verbatim>\<open>json.Unmarshal\<close> into \<^verbatim>\<open>map[string]any\<close>: an object is a
  Go map, an array a slice, a number a \<^verbatim>\<open>float64\<close>. A decoded number is never NaN, so its
  equality is the equality of the rational it denotes. An object is kept as the list of its
  entries; the order of that list is the order in which \<^verbatim>\<open>range\<close> happens to visit the map, which
  Go leaves open, so every statement below is made for all orders. A Go map has each key once:
  that is \<open>wf_json\<close>.
\<close>

datatype json =
    JNull
  | JBool bool
  | JNum rat
  | JStr string
  | JList "json list"
  | JObj "(string \<times> json) list"

type_synonym obj = "(string \<times> json) list"

fun wf_json :: "json \<Rightarrow> bool" where
  "wf_json (JList vs) = (\<forall>v \<in> set vs. wf_json v)"
| "wf_json (JObj kvs) = (distinct (map fst kvs) \<and> (\<forall>(k, v) \<in> set kvs. wf_json v))"
| "wf_json _ = True"

text \<open>
  \<^verbatim>\<open>reflect.DeepEqual\<close> on decoded JSON: values of different dynamic type differ, scalars are
  compared with \<^verbatim>\<open>==\<close>, slices element by element in order, maps by their length and by
  looking every key of the first up in the second.
\<close>

fun deep_equal :: "json \<Rightarrow> json \<Rightarrow> bool" where
  "deep_equal JNull JNull = True"
| "deep_equal (JBool a) (JBool b) = (a = b)"
| "deep_equal (JNum a) (JNum b) = (a = b)"
| "deep_equal (JStr a) (JStr b) = (a = b)"
| "deep_equal (JList a) (JList b) = (length a = length b \<and> list_all2 deep_equal a b)"
| "deep_equal (JObj a) (JObj b) =
     (length a = length b \<and>
      (\<forall>(k, v) \<in> set a. case map_of b k of None \<Rightarrow> False | Some w \<Rightarrow> deep_equal v w))"
| "deep_equal _ _ = False"

text \<open>The type assertion \<^verbatim>\<open>v.(map[string]any)\<close>.\<close>

fun as_map :: "json \<Rightarrow> obj option" where
  "as_map (JObj m) = Some m"
| "as_map _ = None"

text \<open>Following a list of keys down from a value, through objects only.\<close>

fun lookup_path :: "json \<Rightarrow> string list \<Rightarrow> json option" where
  "lookup_path v [] = Some v"
| "lookup_path v (k # ks) =
     (case as_map v of
        None \<Rightarrow> None
      | Some m \<Rightarrow> (case map_of m k of None \<Rightarrow> None | Some w \<Rightarrow> lookup_path w ks))"

section \<open>The merge engine (internal/merge/merge.go)\<close>

record conflict =
  Key :: string
  MasterValue :: json
  LocalValue :: json

record merge_result =
  Merged :: obj
  Conflicts :: "conflict list"
  Forced :: "string list"
  Added :: "string list"
  Matching :: "string list"
  LocalOnly :: "string list"

definition qualifiedKey :: "string \<Rightarrow> string \<Rightarrow> string" where
  "qualifiedKey prefix key = (if prefix = [] then key else prefix @ ''.'' @ key)"

text \<open>The qualified key of a path of keys below a prefix.\<close>

definition qpath :: "string \<Rightarrow> string list \<Rightarrow> string" where
  "qpath prefix ks = foldl qualifiedKey prefix ks"

text \<open>
  \<^verbatim>\<open>localSubMap\<close>: nil when \<^verbatim>\<open>localSrc\<close> is nil or its entry at \<open>k\<close> is missing or not an object.
\<close>

definition local_sub :: "obj option \<Rightarrow> string \<Rightarrow> obj option" where
  "local_sub localSrc k =
     (case localSrc of
        None \<Rightarrow> None
      | Some l \<Rightarrow> (case map_of l k of None \<Rightarrow> None | Some v \<Rightarrow> as_map v))"

text \<open>
  Lines 80 to 95 of \<^verbatim>\<open>mergeInto\<close>: the key is on both sides and the two values are not both
  objects. \<^verbatim>\<open>dst[k] = v\<close> is \<^const>\<open>AList.update\<close>.
\<close>

definition compare_values ::
  "string \<Rightarrow> string \<Rightarrow> json \<Rightarrow> json \<Rightarrow> bool \<Rightarrow> obj \<Rightarrow> merge_result \<Rightarrow> obj \<times> merge_result" where
  "compare_values k key srcVal dstVal force dst result =
     (if deep_equal srcVal dstVal then
        (dst, result\<lparr>Matching := Matching result @ [key]\<rparr>)
      else if force then
        (AList.update k srcVal dst, result\<lparr>Forced := Forced result @ [key]\<rparr>)
      else
        (dst, result\<lparr>Conflicts := Conflicts result @
                 [\<lparr>Key = key, MasterValue = srcVal, LocalValue = dstVal\<rparr>]\<rparr>))"

text \<open>The second loop of \<^verbatim>\<open>mergeInto\<close> (lines 98 to 109), over the keys of \<^verbatim>\<open>dst\<close>.\<close>

fun local_only_loop ::
  "string list \<Rightarrow> obj \<Rightarrow> obj option \<Rightarrow> string \<Rightarrow> merge_result \<Rightarrow> merge_result" where
  "local_only_loop [] src localSrc prefix result = result"
| "local_only_loop (k # ks) src localSrc prefix result =
     (let key = qualifiedKey prefix k in
      local_only_loop ks src localSrc prefix
        (if map_of src k = None then
           (case localSrc of
              None \<Rightarrow> result
            | Some l \<Rightarrow>
                if map_of l k \<noteq> None
                then result\<lparr>LocalOnly := LocalOnly result @ [key]\<rparr>
                else result)
         else result))"

lemma as_map_Some: "as_map v = Some m \<longleftrightarrow> v = JObj m"
  by (cases v) auto

lemma as_map_Some_sym: "Some m = as_map v \<longleftrightarrow> v = JObj m"
  by (cases v) auto

text \<open>
  \<^verbatim>\<open>mergeInto\<close>: \<open>merge_loop\<close> is its first loop, over the entries of \<^verbatim>\<open>src\<close>, which calls
  \<open>mergeInto\<close> again where both values are objects. The maps \<^verbatim>\<open>dst\<close> and \<^verbatim>\<open>result\<close> that the Go
  code updates in place are passed in and returned.
\<close>

function merge_loop ::
    "obj \<Rightarrow> obj \<Rightarrow> obj option \<Rightarrow> string \<Rightarrow> bool \<Rightarrow> merge_result \<Rightarrow> obj \<times> merge_result"
  and mergeInto ::
    "obj \<Rightarrow> obj \<Rightarrow> obj option \<Rightarrow> string \<Rightarrow> bool \<Rightarrow> merge_result \<Rightarrow> obj \<times> merge_result"
where
  "merge_loop dst [] localSrc prefix force result = (dst, result)"
| "merge_loop dst ((k, srcVal) # rest) localSrc prefix force result =
     (let key = qualifiedKey prefix k;
          (dst2, result2) =
            (case map_of dst k of
               None \<Rightarrow> (AList.update k srcVal dst, result\<lparr>Added := Added result @ [key]\<rparr>)
             | Some dstVal \<Rightarrow>
                 (case (as_map srcVal, as_map dstVal) of
                    (Some srcMap, Some dstMap) \<Rightarrow>
                      (let (dstMap', result') =
                             mergeInto dstMap srcMap (local_sub localSrc k) key force result
                       in (AList.update k (JObj dstMap') dst, result'))
                  | _ \<Rightarrow> compare_values k key srcVal dstVal force dst result))
      in merge_loop dst2 rest localSrc prefix force result2)"
| "mergeInto dst src localSrc prefix force result =
     (let (dst', result') = merge_loop dst src localSrc prefix force result
      in (dst', local_only_loop (map fst dst') src localSrc prefix result'))"
  by pat_completeness auto
termination
  by (relation "measure (\<lambda>x. case x of
          Inl (dst, src, localSrc, prefix, force, result) \<Rightarrow> 2 * size (JObj src)
        | Inr (dst, src, localSrc, prefix, force, result) \<Rightarrow> 2 * size (JObj src) + 1)")
     (auto simp: as_map_Some_sym)

definition empty_result :: "obj \<Rightarrow> merge_result" where
  "empty_result m =
     \<lparr>Merged = m, Conflicts = [], Forced = [], Added = [], Matching = [], LocalOnly = []\<rparr>"

text \<open>
  \<^verbatim>\<open>Merge\<close>: a fresh map receives the entries of \<^verbatim>\<open>local\<close>, \<^verbatim>\<open>mergeInto\<close> runs on it, and the
  five lists are sorted (\<^verbatim>\<open>sort.Strings\<close> compares byte strings, as the order on \<^typ>\<open>string\<close>
  does). \<^verbatim>\<open>sort.Slice\<close> is not stable, \<open>sort_key\<close> is: the two can differ only in the order of
  conflicts that carry the same key.
\<close>

definition Merge :: "obj \<Rightarrow> obj \<Rightarrow> bool \<Rightarrow> merge_result" where
  "Merge master local force =
     (let result = empty_result (fold (\<lambda>(k, v) m. AList.update k v m) local []);
          (merged, result') = mergeInto (Merged result) master (Some local) [] force result
      in result'\<lparr>Merged := merged,
                 Added := sort (Added result'),
                 Matching := sort (Matching result'),
                 LocalOnly := sort (LocalOnly result'),
                 Forced := sort (Forced result'),
                 Conflicts := sort_key Key (Conflicts result')\<rparr>)"

subsection \<open>Counting keys\<close>

text \<open>
  Two ways of counting the keys of master. \<open>master_leaf_keys\<close> follows the words of the
  specification: the qualified key of every leaf of master (every value that is not an object),
  each once. \<open>stop_keys\<close> lists the keys at which the traversal of \<^verbatim>\<open>mergeInto\<close> stops and
  classifies: a key of master that local lacks at that place (its subtree is taken over whole
  and counts once), or a key on both sides whose two values are not both objects. A key whose
  two values are both objects is descended into and is not listed itself.
\<close>

function master_leaf_keys :: "obj \<Rightarrow> string \<Rightarrow> string list" where
  "master_leaf_keys [] prefix = []"
| "master_leaf_keys ((k, v) # rest) prefix =
     (case as_map v of
        Some m \<Rightarrow> master_leaf_keys m (qualifiedKey prefix k)
      | None \<Rightarrow> [qualifiedKey prefix k])
     @ master_leaf_keys rest prefix"
  by pat_completeness auto
termination
  by (relation "measure (\<lambda>(master, prefix). size (JObj master))")
     (auto simp: as_map_Some)

function stop_keys :: "obj \<Rightarrow> obj \<Rightarrow> string \<Rightarrow> string list" where
  "stop_keys local [] prefix = []"
| "stop_keys local ((k, mv) # rest) prefix =
     (case map_of local k of
        None \<Rightarrow> [qualifiedKey prefix k]
      | Some lv \<Rightarrow>
          (case (as_map mv, as_map lv) of
             (Some mm, Some lm) \<Rightarrow> stop_keys lm mm (qualifiedKey prefix k)
           | _ \<Rightarrow> [qualifiedKey prefix k]))
     @ stop_keys local rest prefix"
  by pat_completeness auto
termination
  by (relation "measure (\<lambda>(local, master, prefix). size (JObj master))")
     (auto simp: as_map_Some_sym)

section \<open>The merge engine on a store of shared maps\<close>

text \<open>
  A Go map is a reference: \<^verbatim>\<open>result.Merged[k] = v\<close> in \<^verbatim>\<open>Merge\<close> copies the reference to a nested
  map, not the map, and \<^verbatim>\<open>mergeInto\<close> writes through it. The value model above gives every call
  its own copy of the trees, which is what the caller \<^verbatim>\<open>run\<close> sees, since it decodes both files
  afresh and uses only the result. To see what happens to the maps that were passed in, the
  same code is modelled here over a store: a map value is an address (\<open>VMap\<close>), the store
  holds the entries of every map, and \<^verbatim>\<open>dst[k] = v\<close> updates the store at the address of
  \<^verbatim>\<open>dst\<close>. The recursion follows references, so it carries fuel for the nesting depth;
  \<open>None\<close> is out of fuel or a dangling address. \<open>tree_of\<close> reads the tree below a value,
  and \<^verbatim>\<open>reflect.DeepEqual\<close> compares the two trees it reads.
\<close>

datatype val =
    VNull
  | VBool bool
  | VNum rat
  | VStr string
  | VList "val list"
  | VMap nat

type_synonym gomap = "(string \<times> val) list"
type_synonym store = "gomap list"

record conflict_h =
  Key_h :: string
  MasterValue_h :: val
  LocalValue_h :: val

record merge_result_h =
  Merged_h :: nat
  Conflicts_h :: "conflict_h list"
  Forced_h :: "string list"
  Added_h :: "string list"
  Matching_h :: "string list"
  LocalOnly_h :: "string list"

fun tree_of :: "nat \<Rightarrow> store \<Rightarrow> val \<Rightarrow> json option" where
  "tree_of 0 h v = None"
| "tree_of (Suc n) h VNull = Some JNull"
| "tree_of (Suc n) h (VBool b) = Some (JBool b)"
| "tree_of (Suc n) h (VNum x) = Some (JNum x)"
| "tree_of (Suc n) h (VStr s) = Some (JStr s)"
| "tree_of (Suc n) h (VList vs) = map_option JList (those (map (tree_of n h) vs))"
| "tree_of (Suc n) h (VMap a) =
     (if a < length h
      then map_option JObj (those (map (\<lambda>(k, v). map_option (Pair k) (tree_of n h v)) (h ! a)))
      else None)"

definition deep_equal_h :: "nat \<Rightarrow> store \<Rightarrow> val \<Rightarrow> val \<Rightarrow> bool option" where
  "deep_equal_h n h a b =
     (case (tree_of n h a, tree_of n h b) of
        (Some x, Some y) \<Rightarrow> Some (deep_equal x y)
      | _ \<Rightarrow> None)"

fun as_ref :: "val \<Rightarrow> nat option" where
  "as_ref (VMap a) = Some a"
| "as_ref _ = None"

definition local_sub_h :: "store \<Rightarrow> nat option \<Rightarrow> string \<Rightarrow> nat option" where
  "local_sub_h h localSrc k =
     (case localSrc of
        None \<Rightarrow> None
      | Some l \<Rightarrow> (case map_of (h ! l) k of None \<Rightarrow> None | Some v \<Rightarrow> as_ref v))"

text \<open>An address is valid when the store has a map there; nil is valid.\<close>

fun valid_ref :: "store \<Rightarrow> nat option \<Rightarrow> bool" where
  "valid_ref h None = True"
| "valid_ref h (Some a) = (a < length h)"

definition map_set :: "store \<Rightarrow> nat \<Rightarrow> string \<Rightarrow> val \<Rightarrow> store" where
  "map_set h a k v = h[a := AList.update k v (h ! a)]"

fun local_only_loop_h ::
  "store \<Rightarrow> string list \<Rightarrow> nat \<Rightarrow> nat option \<Rightarrow> string \<Rightarrow> merge_result_h \<Rightarrow> merge_result_h" where
  "local_only_loop_h h [] src localSrc prefix result = result"
| "local_only_loop_h h (k # ks) src localSrc prefix result =
     (let key = qualifiedKey prefix k in
      local_only_loop_h h ks src localSrc prefix
        (if map_of (h ! src) k = None then
           (case localSrc of
              None \<Rightarrow> result
            | Some l \<Rightarrow>
                if map_of (h ! l) k \<noteq> None
                then result\<lparr>LocalOnly_h := LocalOnly_h result @ [key]\<rparr>
                else result)
         else result))"

function (sequential) merge_loop_h ::
    "nat \<Rightarrow> store \<Rightarrow> nat \<Rightarrow> gomap \<Rightarrow> nat option \<Rightarrow> string \<Rightarrow> bool \<Rightarrow> merge_result_h
       \<Rightarrow> (store \<times> merge_result_h) option"
  and mergeInto_h ::
    "nat \<Rightarrow> store \<Rightarrow> nat \<Rightarrow> nat \<Rightarrow> nat option \<Rightarrow> string \<Rightarrow> bool \<Rightarrow> merge_result_h
       \<Rightarrow> (store \<times> merge_result_h) option"
where
  "merge_loop_h n h dst [] localSrc prefix force result = Some (h, result)"
| "merge_loop_h n h dst ((k, srcVal) # rest) localSrc prefix force result =
     (let key = qualifiedKey prefix k in
      case map_of (h ! dst) k of
        None \<Rightarrow>
          merge_loop_h n (map_set h dst k srcVal) dst rest localSrc prefix force
            (result\<lparr>Added_h := Added_h result @ [key]\<rparr>)
      | Some dstVal \<Rightarrow>
          (case (as_ref srcVal, as_ref dstVal) of
             (Some srcMap, Some dstMap) \<Rightarrow>
               (case mergeInto_h n h dstMap srcMap (local_sub_h h localSrc k) key force result of
                  None \<Rightarrow> None
                | Some (h', result') \<Rightarrow>
                    merge_loop_h n (map_set h' dst k (VMap dstMap)) dst rest localSrc prefix force
                      result')
           | _ \<Rightarrow>
               (case deep_equal_h n h srcVal dstVal of
                  None \<Rightarrow> None
                | Some True \<Rightarrow>
                    merge_loop_h n h dst rest localSrc prefix force
                      (result\<lparr>Matching_h := Matching_h result @ [key]\<rparr>)
                | Some False \<Rightarrow>
                    if force then
                      merge_loop_h n (map_set h dst k srcVal) dst rest localSrc prefix force
                        (result\<lparr>Forced_h := Forced_h result @ [key]\<rparr>)
                    else
                      merge_loop_h n h dst rest localSrc prefix force
                        (result\<lparr>Conflicts_h := Conflicts_h result @
                           [\<lparr>Key_h = key, MasterValue_h = srcVal, LocalValue_h = dstVal\<rparr>]\<rparr>))))"
| "mergeInto_h 0 h dst src localSrc prefix force result = None"
| "mergeInto_h (Suc n) h dst src localSrc prefix force result =
     (if dst < length h \<and> src < length h \<and> valid_ref h localSrc then
        (case merge_loop_h n h dst (h ! src) localSrc prefix force result of
           None \<Rightarrow> None
         | Some (h', result') \<Rightarrow>
             Some (h', local_only_loop_h h' (map fst (h' ! dst)) src localSrc prefix result'))
      else None)"
  by pat_completeness auto
termination
  by (relation "inv_image (less_than <*lex*> less_than) (\<lambda>x. case x of
          Inl (n, h, dst, entries, localSrc, prefix, force, result) \<Rightarrow> (n, Suc (length entries))
        | Inr (n, h, dst, src, localSrc, prefix, force, result) \<Rightarrow> (n, 0))")
     auto

definition Merge_h :: "nat \<Rightarrow> store \<Rightarrow> nat \<Rightarrow> nat \<Rightarrow> bool \<Rightarrow> (store \<times> merge_result_h) option" where
  "Merge_h n h master local force =
     (if master < length h \<and> local < length h then
        let merged = length h;
            h1 = h @ [fold (\<lambda>(k, v) m. AList.update k v m) (h ! local) []];
            result = \<lparr>Merged_h = merged, Conflicts_h = [], Forced_h = [], Added_h = [],
                      Matching_h = [], LocalOnly_h = []\<rparr>
        in case mergeInto_h n h1 merged master (Some local) [] force result of
             None \<Rightarrow> None
           | Some (h2, result') \<Rightarrow>
               Some (h2, result'\<lparr>Added_h := sort (Added_h result'),
                                 Matching_h := sort (Matching_h result'),
                                 LocalOnly_h := sort (LocalOnly_h result'),
                                 Forced_h := sort (Forced_h result'),
                                 Conflicts_h := sort_key Key_h (Conflicts_h result')\<rparr>)
      else None)"

section \<open>The directory sync engine (internal/dirsync/dirsync.go)\<close>

text \<open>
  The file system is a tree: a regular file with its bytes and permission bits, a directory
  with its entries (for the source, in the order \<^verbatim>\<open>os.ReadDir\<close> lists them), and \<open>Special\<close> for
  everything else (symbolic links, sockets, devices). The source tree and the destination tree
  are disjoint, so a run only changes the destination; \<^verbatim>\<open>runSync\<close> refuses a destination that is
  a symbolic link, and links are not followed in the model. Failures that depend on the
  machine and not on the shape of the trees (permissions, a full disk) are decided by an
  environment \<open>env\<close>, which also supplies the name \<^verbatim>\<open>os.CreateTemp\<close> picks; the statements
  below hold for every environment.
\<close>

datatype fsnode =
    Regular string nat
  | Directory "(string \<times> fsnode) list"
  | Special

type_synonym dirents = "(string \<times> fsnode) list"

datatype fault =
    OpenFails | StatFails | CreateTempFails | ChmodFails | CopyFails nat | CloseFails | RenameFails

datatype io_error =
    ErrReadingSourceDirectory | ErrCreatingDestinationDirectory | ErrStat
  | ErrReading | ErrCreating
  | ErrOpening | ErrStatSource | ErrCreatingTemp | ErrSettingPermissions
  | ErrCopying | ErrClosingTemp | ErrRenaming

record env =
  TempName :: "string list \<Rightarrow> string"
  CopyFault :: "string list \<Rightarrow> fault option"
  ReadDirFails :: "string list \<Rightarrow> bool"
  MkdirFails :: "string list \<Rightarrow> bool"
  LstatFails :: "string list \<Rightarrow> bool"

record sync_result =
  Copied :: "string list"
  Skipped :: "string list"
  Forced_s :: "string list"

fun is_dir :: "fsnode option \<Rightarrow> bool" where
  "is_dir (Some (Directory es)) = True"
| "is_dir _ = False"

fun bytes_written :: "fault option \<Rightarrow> nat \<Rightarrow> nat" where
  "bytes_written (Some (CopyFails n)) len = min n len"
| "bytes_written _ len = len"

fun copy_fails :: "fault option \<Rightarrow> bool" where
  "copy_fails (Some (CopyFails n)) = True"
| "copy_fails _ = False"

text \<open>
  \<^verbatim>\<open>copyFile\<close>, one system call at a time. The result is the list of states the destination
  directory goes through and the error, if any. \<^verbatim>\<open>os.CreateTemp\<close> opens with \<^verbatim>\<open>O_EXCL\<close>, so it
  fails on a name that exists; \<^verbatim>\<open>io.Copy\<close> writes the bytes in some number of chunks, and the
  model lists the state after every single byte, which includes the states of any chunking;
  \<^verbatim>\<open>os.Rename\<close> is one step and fails on a directory; after \<^verbatim>\<open>CreateTemp\<close> every error path runs
  the deferred \<^verbatim>\<open>os.Remove\<close> of the temporary file. Mode \<open>384\<close> is \<^verbatim>\<open>0o600\<close>.
\<close>

definition copyFile_trace ::
  "dirents \<Rightarrow> string \<Rightarrow> string \<Rightarrow> nat \<Rightarrow> string \<Rightarrow> fault option \<Rightarrow> dirents list \<times> io_error option" where
  "copyFile_trace dir name content mode tmp fault =
     (if fault = Some OpenFails then ([dir], Some ErrOpening)
      else if fault = Some StatFails then ([dir], Some ErrStatSource)
      else if fault = Some CreateTempFails \<or> map_of dir tmp \<noteq> None then ([dir], Some ErrCreatingTemp)
      else
        let created = AList.update tmp (Regular [] 384) dir in
        if fault = Some ChmodFails
        then ([dir, created, AList.delete tmp created], Some ErrSettingPermissions)
        else
          let written = (\<lambda>n. AList.update tmp (Regular (take n content) mode) created);
              n = bytes_written fault (length content);
              before_rename = [dir, created] @ map written [0..<Suc n]
          in
          if copy_fails fault
          then (before_rename @ [AList.delete tmp (written n)], Some ErrCopying)
          else if fault = Some CloseFails
          then (before_rename @ [AList.delete tmp (written n)], Some ErrClosingTemp)
          else if fault = Some RenameFails \<or> is_dir (map_of (written n) name)
          then (before_rename @ [AList.delete tmp (written n)], Some ErrRenaming)
          else (before_rename @
                  [AList.update name (Regular content mode) (AList.delete tmp (written n))],
                None))"

definition copyFile ::
  "dirents \<Rightarrow> string \<Rightarrow> string \<Rightarrow> nat \<Rightarrow> string \<Rightarrow> fault option \<Rightarrow> dirents \<times> io_error option" where
  "copyFile dir name content mode tmp fault =
     (case copyFile_trace dir name content mode tmp fault of
        (states, err) \<Rightarrow> (last states, err))"

text \<open>
  \<^verbatim>\<open>copyDir\<close> (\<open>copy_entries\<close> is its loop) and \<^verbatim>\<open>Sync\<close> (\<open>sync_loop\<close> is its loop). \<open>sp\<close> and
  \<open>dp\<close> are the paths below the source and destination roots, for the environment. An error
  stops the run and keeps what was written so far.
\<close>

fun put_child :: "string \<Rightarrow> fsnode option \<Rightarrow> dirents \<Rightarrow> dirents" where
  "put_child name None dir = dir"
| "put_child name (Some n) dir = AList.update name n dir"

function copy_entries ::
    "env \<Rightarrow> string list \<Rightarrow> string list \<Rightarrow> dirents \<Rightarrow> dirents \<Rightarrow> dirents \<times> io_error option"
  and copyDir ::
    "env \<Rightarrow> string list \<Rightarrow> string list \<Rightarrow> dirents \<Rightarrow> fsnode option \<Rightarrow> fsnode option \<times> io_error option"
where
  "copy_entries e sp dp [] dir = (dir, None)"
| "copy_entries e sp dp ((name, entry) # rest) dir =
     (case entry of
        Directory es \<Rightarrow>
          (case copyDir e (sp @ [name]) (dp @ [name]) es (map_of dir name) of
             (child, Some err) \<Rightarrow> (put_child name child dir, Some err)
           | (child, None) \<Rightarrow> copy_entries e sp dp rest (put_child name child dir))
      | Regular content mode \<Rightarrow>
          (case copyFile dir name content mode (TempName e (dp @ [name])) (CopyFault e (dp @ [name])) of
             (dir', Some err) \<Rightarrow> (dir', Some err)
           | (dir', None) \<Rightarrow> copy_entries e sp dp rest dir')
      | Special \<Rightarrow> copy_entries e sp dp rest dir)"
| "copyDir e sp dp entries dst =
     (if ReadDirFails e sp then (dst, Some ErrReading)
      else
        (case dst of
           None \<Rightarrow>
             if MkdirFails e dp then (None, Some ErrCreating)
             else (case copy_entries e sp dp entries [] of
                     (dir', err) \<Rightarrow> (Some (Directory dir'), err))
         | Some (Directory dir) \<Rightarrow>
             (case copy_entries e sp dp entries dir of
                (dir', err) \<Rightarrow> (Some (Directory dir'), err))
         | Some other \<Rightarrow> (dst, Some ErrCreating)))"
  by pat_completeness auto
termination
  by (relation "measure (\<lambda>x. case x of
          Inl (e, sp, dp, entries, dir) \<Rightarrow> 2 * size (Directory entries)
        | Inr (e, sp, dp, entries, dst) \<Rightarrow> 2 * size (Directory entries) + 1)")
     auto

fun sync_loop ::
  "env \<Rightarrow> bool \<Rightarrow> dirents \<Rightarrow> dirents \<Rightarrow> sync_result \<Rightarrow> dirents \<times> sync_result \<times> io_error option" where
  "sync_loop e force [] dir res = (dir, res, None)"
| "sync_loop e force ((name, entry) # rest) dir res =
     (if LstatFails e [name] then (dir, res, Some ErrStat)
      else
        let exists = (map_of dir name \<noteq> None) in
        if exists \<and> \<not> force
        then sync_loop e force rest dir (res\<lparr>Skipped := Skipped res @ [name]\<rparr>)
        else
          let res' = (if exists then res\<lparr>Forced_s := Forced_s res @ [name]\<rparr>
                      else res\<lparr>Copied := Copied res @ [name]\<rparr>)
          in
          (case entry of
             Regular content mode \<Rightarrow>
               (case copyFile dir name content mode (TempName e [name]) (CopyFault e [name]) of
                  (dir', Some err) \<Rightarrow> (dir', res, Some err)
                | (dir', None) \<Rightarrow> sync_loop e force rest dir' res')
           | Directory es \<Rightarrow>
               (case copyDir e [name] [name] es (map_of dir name) of
                  (child, Some err) \<Rightarrow> (put_child name child dir, res, Some err)
                | (child, None) \<Rightarrow> sync_loop e force rest (put_child name child dir) res')
           | Special \<Rightarrow> sync_loop e force rest dir res))"

definition empty_sync_result :: sync_result where
  "empty_sync_result = \<lparr>Copied = [], Skipped = [], Forced_s = []\<rparr>"

definition Sync ::
  "env \<Rightarrow> fsnode option \<Rightarrow> fsnode option \<Rightarrow> bool \<Rightarrow> fsnode option \<times> sync_result \<times> io_error option" where
  "Sync e src dst force =
     (case src of
        None \<Rightarrow> (dst, empty_sync_result, None)
      | Some (Directory entries) \<Rightarrow>
          if ReadDirFails e [] then (dst, empty_sync_result, Some ErrReadingSourceDirectory)
          else
            (case dst of
               None \<Rightarrow>
                 if MkdirFails e [] then (None, empty_sync_result, Some ErrCreatingDestinationDirectory)
                 else
                   (case sync_loop e force entries [] empty_sync_result of
                      (dir', res, Some err) \<Rightarrow> (Some (Directory dir'), res, Some err)
                    | (dir', res, None) \<Rightarrow>
                        (Some (Directory dir'),
                         \<lparr>Copied = sort (Copied res), Skipped = sort (Skipped res),
                          Forced_s = sort (Forced_s res)\<rparr>, None))
             | Some (Directory dir) \<Rightarrow>
                 (case sync_loop e force entries dir empty_sync_result of
                    (dir', res, Some err) \<Rightarrow> (Some (Directory dir'), res, Some err)
                  | (dir', res, None) \<Rightarrow>
                      (Some (Directory dir'),
                       \<lparr>Copied = sort (Copied res), Skipped = sort (Skipped res),
                        Forced_s = sort (Forced_s res)\<rparr>, None))
             | Some other \<Rightarrow> (dst, empty_sync_result, Some ErrCreatingDestinationDirectory))
      | Some other \<Rightarrow> (dst, empty_sync_result, Some ErrReadingSourceDirectory))"

definition quiet :: env where
  "quiet = \<lparr>TempName = (\<lambda>p. ''.copy-1''), CopyFault = (\<lambda>p. None), ReadDirFails = (\<lambda>p. False),
            MkdirFails = (\<lambda>p. False), LstatFails = (\<lambda>p. False)\<rparr>"

text \<open>Looking a path up in a tree, and trees whose directories list each name once.\<close>

fun fs_lookup :: "fsnode option \<Rightarrow> string list \<Rightarrow> fsnode option" where
  "fs_lookup n [] = n"
| "fs_lookup n (k # ks) =
     (case n of
        Some (Directory es) \<Rightarrow> fs_lookup (map_of es k) ks
      | _ \<Rightarrow> None)"

fun wf_fs :: "fsnode \<Rightarrow> bool" where
  "wf_fs (Directory es) = (distinct (map fst es) \<and> (\<forall>(k, n) \<in> set es. wf_fs n))"
| "wf_fs _ = True"

text \<open>
  One iteration of \<open>sync_loop\<close>, named for the proofs: \<open>sync_loop_Cons\<close> below shows that the
  loop runs it on each entry in turn and stops at the first error.
\<close>

definition sync_step ::
  "env \<Rightarrow> bool \<Rightarrow> string \<Rightarrow> fsnode \<Rightarrow> dirents \<Rightarrow> sync_result \<Rightarrow> dirents \<times> sync_result \<times> io_error option" where
  "sync_step e force name entry dir res =
     (if LstatFails e [name] then (dir, res, Some ErrStat)
      else if map_of dir name \<noteq> None \<and> \<not> force
      then (dir, res\<lparr>Skipped := Skipped res @ [name]\<rparr>, None)
      else
        let res' = (if map_of dir name \<noteq> None then res\<lparr>Forced_s := Forced_s res @ [name]\<rparr>
                    else res\<lparr>Copied := Copied res @ [name]\<rparr>)
        in
        (case entry of
           Regular content mode \<Rightarrow>
             (case copyFile dir name content mode (TempName e [name]) (CopyFault e [name]) of
                (dir', Some err) \<Rightarrow> (dir', res, Some err)
              | (dir', None) \<Rightarrow> (dir', res', None))
         | Directory es \<Rightarrow>
             (case copyDir e [name] [name] es (map_of dir name) of
                (child, Some err) \<Rightarrow> (put_child name child dir, res, Some err)
              | (child, None) \<Rightarrow> (put_child name child dir, res', None))
         | Special \<Rightarrow> (dir, res, None)))"

section \<open>What the merge computes, without the threaded state\<close>

text \<open>
  The proofs go through a description of \<^verbatim>\<open>mergeInto\<close> in two parts that no longer thread the
  report: the tree it leaves in \<^verbatim>\<open>dst\<close> (\<open>merged_loop\<close>) and the list of what it reports, in the
  order of the traversal (\<open>events\<close>), read off the tree \<^verbatim>\<open>dst\<close> had at the call. A differing pair
  is one event: \<^verbatim>\<open>force\<close> only decides whether it lands in \<^verbatim>\<open>Forced\<close> or in \<^verbatim>\<open>Conflicts\<close>.
  Lemma \<open>mergeInto_pure\<close> shows that the code computes exactly this pair.
\<close>

datatype event = EvAdded string | EvMatching string | EvDiffer string json json | EvLocalOnly string

definition local_only_keys :: "obj \<Rightarrow> obj \<Rightarrow> obj option \<Rightarrow> string list" where
  "local_only_keys dst src localSrc =
     filter (\<lambda>k. map_of src k = None \<and> (case localSrc of None \<Rightarrow> False | Some l \<Rightarrow> map_of l k \<noteq> None))
       (map fst dst)"

function events_loop :: "obj \<Rightarrow> obj \<Rightarrow> obj option \<Rightarrow> string \<Rightarrow> event list" where
  "events_loop dst [] localSrc prefix = []"
| "events_loop dst ((k, srcVal) # rest) localSrc prefix =
     (case map_of dst k of
        None \<Rightarrow> [EvAdded (qualifiedKey prefix k)]
      | Some dstVal \<Rightarrow>
          (case (as_map srcVal, as_map dstVal) of
             (Some srcMap, Some dstMap) \<Rightarrow>
               events_loop dstMap srcMap (local_sub localSrc k) (qualifiedKey prefix k)
               @ map (\<lambda>k'. EvLocalOnly (qualifiedKey (qualifiedKey prefix k) k'))
                   (local_only_keys dstMap srcMap (local_sub localSrc k))
           | _ \<Rightarrow>
               if deep_equal srcVal dstVal then [EvMatching (qualifiedKey prefix k)]
               else [EvDiffer (qualifiedKey prefix k) srcVal dstVal]))
     @ events_loop dst rest localSrc prefix"
  by pat_completeness auto
termination
  by (relation "measure (\<lambda>(dst, src, localSrc, prefix). size (JObj src))")
     (auto simp: as_map_Some_sym)

definition events :: "obj \<Rightarrow> obj \<Rightarrow> obj option \<Rightarrow> string \<Rightarrow> event list" where
  "events dst src localSrc prefix =
     events_loop dst src localSrc prefix
     @ map (\<lambda>k. EvLocalOnly (qualifiedKey prefix k)) (local_only_keys dst src localSrc)"

function merged_loop :: "bool \<Rightarrow> obj \<Rightarrow> obj \<Rightarrow> obj" where
  "merged_loop force dst [] = dst"
| "merged_loop force dst ((k, srcVal) # rest) =
     merged_loop force
       (case map_of dst k of
          None \<Rightarrow> AList.update k srcVal dst
        | Some dstVal \<Rightarrow>
            (case (as_map srcVal, as_map dstVal) of
               (Some srcMap, Some dstMap) \<Rightarrow>
                 AList.update k (JObj (merged_loop force dstMap srcMap)) dst
             | _ \<Rightarrow>
                 if deep_equal srcVal dstVal then dst
                 else if force then AList.update k srcVal dst
                 else dst))
       rest"
  by pat_completeness auto
termination
  by (relation "measure (\<lambda>(force, dst, src). size (JObj src))")
     (auto simp: as_map_Some_sym)

fun apply_event :: "bool \<Rightarrow> event \<Rightarrow> merge_result \<Rightarrow> merge_result" where
  "apply_event force (EvAdded s) r = r\<lparr>Added := Added r @ [s]\<rparr>"
| "apply_event force (EvMatching s) r = r\<lparr>Matching := Matching r @ [s]\<rparr>"
| "apply_event force (EvDiffer s mv lv) r =
     (if force then r\<lparr>Forced := Forced r @ [s]\<rparr>
      else r\<lparr>Conflicts := Conflicts r @ [\<lparr>Key = s, MasterValue = mv, LocalValue = lv\<rparr>]\<rparr>)"
| "apply_event force (EvLocalOnly s) r = r\<lparr>LocalOnly := LocalOnly r @ [s]\<rparr>"

definition add_events :: "bool \<Rightarrow> event list \<Rightarrow> merge_result \<Rightarrow> merge_result" where
  "add_events force evs r = fold (apply_event force) evs r"

lemma add_events_Nil [simp]: "add_events force [] r = r"
  by (simp add: add_events_def)

lemma add_events_Cons [simp]:
  "add_events force (e # es) r = add_events force es (apply_event force e r)"
  by (simp add: add_events_def)

lemma add_events_append [simp]:
  "add_events force (a @ b) r = add_events force b (add_events force a r)"
  by (simp add: add_events_def)

lemma add_events_single [simp]: "add_events force [e] r = apply_event force e r"
  by (simp add: add_events_def)

lemma local_only_loop_events:
  "local_only_loop ks src localSrc prefix r =
     add_events force
       (map (\<lambda>k. EvLocalOnly (qualifiedKey prefix k))
          (filter (\<lambda>k. map_of src k = None \<and>
              (case localSrc of None \<Rightarrow> False | Some l \<Rightarrow> map_of l k \<noteq> None)) ks)) r"
  by (induction ks arbitrary: r) (auto simp: Let_def split: option.splits)


lemma obj_induct [case_names Nil Cons]:
  assumes "P []"
    and "\<And>k sv rest. (\<And>sm. sv = JObj sm \<Longrightarrow> P sm) \<Longrightarrow> P rest \<Longrightarrow> P ((k, sv) # rest)"
  shows "P (src :: obj)"
proof (induction src rule: measure_induct_rule [where f = "\<lambda>s. size (JObj s)"])
  case (less src)
  show ?case
  proof (cases src)
    case Nil
    then show ?thesis using assms(1) by simp
  next
    case (Cons a rest)
    obtain k sv where a: "a = (k, sv)" by (cases a)
    have 1: "\<And>sm. sv = JObj sm \<Longrightarrow> P sm"
      using less Cons a by simp
    have 2: "P rest" using less Cons a by simp
    show ?thesis using assms(2)[OF 1 2] Cons a by simp
  qed
qed

definition merge_val :: "bool \<Rightarrow> json \<Rightarrow> json option \<Rightarrow> json" where
  "merge_val force srcVal d =
     (case d of
        None \<Rightarrow> srcVal
      | Some dstVal \<Rightarrow>
          (case (as_map srcVal, as_map dstVal) of
             (Some srcMap, Some dstMap) \<Rightarrow> JObj (merged_loop force dstMap srcMap)
           | _ \<Rightarrow> if deep_equal srcVal dstVal then dstVal
                  else if force then srcVal else dstVal))"

lemma merge_val_None [simp]: "merge_val force sv None = sv"
  by (simp add: merge_val_def)

lemma merge_val_obj [simp]:
  "merge_val force (JObj sm) (Some (JObj dm)) = JObj (merged_loop force dm sm)"
  by (simp add: merge_val_def)

lemma merge_val_other:
  "as_map sv = None \<or> as_map dv = None \<Longrightarrow>
   merge_val force sv (Some dv) = (if deep_equal sv dv then dv else if force then sv else dv)"
  by (auto simp: merge_val_def split: option.splits)

lemma merged_loop_Cons:
  "merged_loop force dst ((k, sv) # rest) =
     merged_loop force (AList.update k (merge_val force sv (map_of dst k)) dst) rest"
  by (auto simp: merge_val_def update_triv split: option.splits intro!: arg_cong2[where f="merged_loop force"])

declare merged_loop.simps(2) [simp del]

definition entry_events :: "json option \<Rightarrow> string \<Rightarrow> json \<Rightarrow> obj option \<Rightarrow> string \<Rightarrow> event list" where
  "entry_events d k srcVal localSrc prefix =
     (case d of
        None \<Rightarrow> [EvAdded (qualifiedKey prefix k)]
      | Some dstVal \<Rightarrow>
          (case (as_map srcVal, as_map dstVal) of
             (Some srcMap, Some dstMap) \<Rightarrow>
               events dstMap srcMap (local_sub localSrc k) (qualifiedKey prefix k)
           | _ \<Rightarrow>
               if deep_equal srcVal dstVal then [EvMatching (qualifiedKey prefix k)]
               else [EvDiffer (qualifiedKey prefix k) srcVal dstVal]))"

lemma entry_events_None [simp]: "entry_events None k sv ls p = [EvAdded (qualifiedKey p k)]"
  by (simp add: entry_events_def)

lemma entry_events_obj [simp]:
  "entry_events (Some (JObj dm)) k (JObj sm) ls p =
     events dm sm (local_sub ls k) (qualifiedKey p k)"
  by (simp add: entry_events_def)

lemma entry_events_other:
  "as_map sv = None \<or> as_map dv = None \<Longrightarrow>
   entry_events (Some dv) k sv ls p =
     (if deep_equal sv dv then [EvMatching (qualifiedKey p k)]
      else [EvDiffer (qualifiedKey p k) sv dv])"
  by (auto simp: entry_events_def split: option.splits)

lemma events_loop_Cons:
  "events_loop dst ((k, sv) # rest) ls p =
     entry_events (map_of dst k) k sv ls p @ events_loop dst rest ls p"
  by (auto simp: entry_events_def events_def split: option.splits)

declare events_loop.simps(2) [simp del]

lemma events_loop_cong:
  "(\<And>k. k \<in> fst ` set src \<Longrightarrow> map_of d1 k = map_of d2 k) \<Longrightarrow>
   events_loop d1 src ls p = events_loop d2 src ls p"
  by (induction src) (auto simp: events_loop_Cons)

lemma keys_update_filter:
  "\<not> P k \<Longrightarrow> filter P (map fst (AList.update k v d)) = filter P (map fst d)"
  by (induction d) auto

lemma merged_loop_keys_filter:
  "(\<And>k. k \<in> fst ` set src \<Longrightarrow> \<not> P k) \<Longrightarrow>
   filter P (map fst (merged_loop force dst src)) = filter P (map fst dst)"
  by (induction src arbitrary: dst) (auto simp: merged_loop_Cons keys_update_filter)

lemma local_only_keys_merged:
  "local_only_keys (merged_loop force dst src) src ls = local_only_keys dst src ls"
  unfolding local_only_keys_def
  by (rule merged_loop_keys_filter) (auto simp: map_of_eq_None_iff)

definition entry_step ::
  "obj \<Rightarrow> string \<Rightarrow> json \<Rightarrow> obj option \<Rightarrow> string \<Rightarrow> bool \<Rightarrow> merge_result \<Rightarrow> obj \<times> merge_result" where
  "entry_step dst k srcVal localSrc prefix force result =
     (case map_of dst k of
        None \<Rightarrow> (AList.update k srcVal dst,
                 result\<lparr>Added := Added result @ [qualifiedKey prefix k]\<rparr>)
      | Some dstVal \<Rightarrow>
          (case (as_map srcVal, as_map dstVal) of
             (Some srcMap, Some dstMap) \<Rightarrow>
               (let (dstMap', result') =
                      mergeInto dstMap srcMap (local_sub localSrc k) (qualifiedKey prefix k) force result
                in (AList.update k (JObj dstMap') dst, result'))
           | _ \<Rightarrow> compare_values k (qualifiedKey prefix k) srcVal dstVal force dst result))"

lemma merge_loop_Cons:
  "merge_loop dst ((k, sv) # rest) ls p force r =
     (case entry_step dst k sv ls p force r of
        (dst2, r2) \<Rightarrow> merge_loop dst2 rest ls p force r2)"
  by (simp add: entry_step_def Let_def)

declare merge_loop.simps(2) [simp del]

lemma mergeInto_loop:
  "mergeInto dst src ls p force r =
     (case merge_loop dst src ls p force r of
        (dst', r') \<Rightarrow> (dst', add_events force
            (map (\<lambda>k. EvLocalOnly (qualifiedKey p k)) (local_only_keys dst' src ls)) r'))"
  by (simp add: local_only_keys_def local_only_loop_events[where force=force] split: prod.splits)

declare mergeInto.simps [simp del]

lemma merge_loop_pure:
  "distinct (map fst src) \<Longrightarrow> (\<forall>(k, v) \<in> set src. wf_json v) \<Longrightarrow>
   merge_loop dst src ls p force r =
     (merged_loop force dst src, add_events force (events_loop dst src ls p) r)"
proof (induction src arbitrary: dst ls p r rule: obj_induct)
  case Nil
  then show ?case by simp
next
  case (Cons k sv rest)
  have k: "k \<notin> fst ` set rest" and dr: "distinct (map fst rest)"
    and wr: "\<forall>(k, v) \<in> set rest. wf_json v" and wsv: "wf_json sv"
    using Cons.prems by auto
  have nested: "mergeInto dm sm ls' p' force r' =
      (merged_loop force dm sm, add_events force (events dm sm ls' p') r')"
    if "sv = JObj sm" for sm dm ls' p' r'
  proof -
    have "distinct (map fst sm)" "\<forall>(k, v) \<in> set sm. wf_json v"
      using wsv that by auto
    from Cons.IH(1)[OF that this]
    show ?thesis
      by (simp add: mergeInto_loop events_def local_only_keys_merged)
  qed
  have step: "entry_step dst k sv ls p force r =
      (AList.update k (merge_val force sv (map_of dst k)) dst,
       add_events force (entry_events (map_of dst k) k sv ls p) r)"
  proof (cases "map_of dst k")
    case None
    then show ?thesis by (simp add: entry_step_def)
  next
    case (Some dv)
    show ?thesis
    proof (cases "as_map sv = None \<or> as_map dv = None")
      case True
      then show ?thesis using Some
        by (auto simp: entry_step_def compare_values_def merge_val_other entry_events_other
            update_triv split: option.splits)
    next
      case False
      then obtain sm dm where "sv = JObj sm" "dv = JObj dm"
        by (auto simp: as_map_Some)
      then show ?thesis using Some nested
        by (simp add: entry_step_def)
    qed
  qed
  have cong: "events_loop (AList.update k v dst) rest ls p = events_loop dst rest ls p" for v
    by (rule events_loop_cong) (use k in \<open>auto simp: update_conv'\<close>)
  show ?case
    by (simp add: merge_loop_Cons step Cons.IH(2)[OF dr wr] merged_loop_Cons events_loop_Cons cong)
qed

lemma mergeInto_pure:
  "wf_json (JObj src) \<Longrightarrow>
   mergeInto dst src ls p force r =
     (merged_loop force dst src, add_events force (events dst src ls p) r)"
  by (simp add: mergeInto_loop merge_loop_pure events_def local_only_keys_merged)

fun ev_added :: "event \<Rightarrow> string list" where
  "ev_added (EvAdded s) = [s]" | "ev_added _ = []"
fun ev_matching :: "event \<Rightarrow> string list" where
  "ev_matching (EvMatching s) = [s]" | "ev_matching _ = []"
fun ev_local_only :: "event \<Rightarrow> string list" where
  "ev_local_only (EvLocalOnly s) = [s]" | "ev_local_only _ = []"
fun ev_differ :: "event \<Rightarrow> conflict list" where
  "ev_differ (EvDiffer s mv lv) = [\<lparr>Key = s, MasterValue = mv, LocalValue = lv\<rparr>]" | "ev_differ _ = []"

definition added_of :: "event list \<Rightarrow> string list" where
  "added_of evs = concat (map ev_added evs)"
definition matching_of :: "event list \<Rightarrow> string list" where
  "matching_of evs = concat (map ev_matching evs)"
definition local_only_of :: "event list \<Rightarrow> string list" where
  "local_only_of evs = concat (map ev_local_only evs)"
definition differ_of :: "event list \<Rightarrow> conflict list" where
  "differ_of evs = concat (map ev_differ evs)"

lemma add_events_fields:
  "Added (add_events force evs r) = Added r @ added_of evs"
  "Matching (add_events force evs r) = Matching r @ matching_of evs"
  "LocalOnly (add_events force evs r) = LocalOnly r @ local_only_of evs"
  "Conflicts (add_events force evs r) = Conflicts r @ (if force then [] else differ_of evs)"
  "Forced (add_events force evs r) = Forced r @ (if force then map Key (differ_of evs) else [])"
  "Merged (add_events force evs r) = Merged r"
proof (induction evs arbitrary: r)
  case Nil
  {
    case 1 show ?case by (simp add: added_of_def) next
    case 2 show ?case by (simp add: matching_of_def) next
    case 3 show ?case by (simp add: local_only_of_def) next
    case 4 show ?case by (simp add: differ_of_def) next
    case 5 show ?case by (simp add: differ_of_def) next
    case 6 show ?case by simp
  }
next
  case (Cons e evs)
  {
    case 1 show ?case by (cases e) (simp_all add: Cons.IH added_of_def) next
    case 2 show ?case by (cases e) (simp_all add: Cons.IH matching_of_def) next
    case 3 show ?case by (cases e) (simp_all add: Cons.IH local_only_of_def) next
    case 4 show ?case by (cases e) (simp_all add: Cons.IH differ_of_def) next
    case 5 show ?case by (cases e) (simp_all add: Cons.IH differ_of_def) next
    case 6 show ?case by (cases e) (simp_all add: Cons.IH)
  }
qed

lemma update_fresh: "k \<notin> fst ` set al \<Longrightarrow> AList.update k v al = al @ [(k, v)]"
  by (induction al) auto

lemma copy_local_acc:
  "distinct (map fst (acc @ l)) \<Longrightarrow> fold (\<lambda>(k, v) m. AList.update k v m) l acc = acc @ l"
proof (induction l arbitrary: acc)
  case Nil
  then show ?case by simp
next
  case (Cons a l)
  obtain k v where a: "a = (k, v)" by (cases a)
  have "k \<notin> fst ` set acc" using Cons.prems a by auto
  then have "AList.update k v acc = acc @ [(k, v)]" by (rule update_fresh)
  moreover have "distinct (map fst ((acc @ [(k, v)]) @ l))" using Cons.prems a by simp
  ultimately show ?case using Cons.IH[of "acc @ [(k, v)]"] a by simp
qed

lemma copy_local: "distinct (map fst l) \<Longrightarrow> fold (\<lambda>(k, v) m. AList.update k v m) l [] = l"
  using copy_local_acc[of "[]" l] by simp

definition merge_events :: "obj \<Rightarrow> obj \<Rightarrow> event list" where
  "merge_events master local = events local master (Some local) []"

lemma Merge_pure:
  assumes "wf_json (JObj master)" "distinct (map fst local)"
  shows "Merge master local force =
     \<lparr>Merged = merged_loop force local master,
      Conflicts = (if force then [] else sort_key Key (differ_of (merge_events master local))),
      Forced = (if force then sort (map Key (differ_of (merge_events master local))) else []),
      Added = sort (added_of (merge_events master local)),
      Matching = sort (matching_of (merge_events master local)),
      LocalOnly = sort (local_only_of (merge_events master local))\<rparr>"
  using assms
  by (simp add: Merge_def copy_local empty_result_def mergeInto_pure add_events_fields
      merge_events_def)

lemma merged_loop_lookup:
  "distinct (map fst src) \<Longrightarrow>
   map_of (merged_loop force dst src) k =
     (case map_of src k of
        None \<Rightarrow> map_of dst k
      | Some sv \<Rightarrow> Some (merge_val force sv (map_of dst k)))"
proof (induction src arbitrary: dst)
  case Nil
  then show ?case by simp
next
  case (Cons a rest)
  obtain k' sv' where a: "a = (k', sv')" by (cases a)
  have d: "distinct (map fst rest)" and nk: "map_of rest k' = None"
    using Cons.prems a by (auto simp: map_of_eq_None_iff)
  show ?case
    using Cons.IH[OF d] nk
    by (auto simp: a merged_loop_Cons update_conv' split: option.splits)
qed

lemma qpath_Nil [simp]: "qpath p [] = p"
  by (simp add: qpath_def)

lemma qpath_Cons [simp]: "qpath p (k # ks) = qpath (qualifiedKey p k) ks"
  by (simp add: qpath_def)

lemma lookup_path_Cons_Some:
  "lookup_path v (k # ks) = Some w \<longleftrightarrow>
     (\<exists>m u. v = JObj m \<and> map_of m k = Some u \<and> lookup_path u ks = Some w)"
  by (cases v) (auto split: option.splits)

lemma lookup_path_is_obj: "lookup_path v q = Some w \<Longrightarrow> q \<noteq> [] \<Longrightarrow> \<exists>m. v = JObj m"
  by (cases q) (auto simp: lookup_path_Cons_Some simp del: lookup_path.simps)

lemma entry_events_subset:
  "(k, sv) \<in> set src \<Longrightarrow>
   set (entry_events (map_of dst k) k sv ls p) \<subseteq> set (events_loop dst src ls p)"
  by (induction src) (auto simp: events_loop_Cons)

lemma events_loop_subset: "set (events_loop dst src ls p) \<subseteq> set (events dst src ls p)"
  by (simp add: events_def)

text \<open>A key on both sides, not an object on both sides: what the report and the tree get.\<close>

lemma events_at_path:
  "lookup_path (JObj src) q = Some mv \<Longrightarrow> lookup_path (JObj dst) q = Some lv \<Longrightarrow> q \<noteq> [] \<Longrightarrow>
   as_map mv = None \<or> as_map lv = None \<Longrightarrow>
   (if deep_equal mv lv then EvMatching (qpath p q) else EvDiffer (qpath p q) mv lv)
     \<in> set (events_loop dst src ls p)"
proof (induction q arbitrary: src dst ls p)
  case Nil
  then show ?case by simp
next
  case (Cons k q)
  from Cons.prems(1) obtain sv where sv: "map_of src k = Some sv" "lookup_path sv q = Some mv"
    by (auto split: option.splits)
  from Cons.prems(2) obtain dv where dv: "map_of dst k = Some dv" "lookup_path dv q = Some lv"
    by (auto split: option.splits)
  have mem: "(k, sv) \<in> set src" using sv(1) by (rule map_of_SomeD)
  note sub = entry_events_subset[OF mem, of dst ls p]
  show ?case
  proof (cases q)
    case Nil
    then have "sv = mv" "dv = lv" using sv dv by auto
    then show ?thesis using sub dv(1) Cons.prems(4) Nil
      by (auto simp: entry_events_other)
  next
    case (Cons k' q')
    then obtain sm dm where o: "sv = JObj sm" "dv = JObj dm"
      using lookup_path_is_obj[OF sv(2)] lookup_path_is_obj[OF dv(2)] by auto
    have "(if deep_equal mv lv then EvMatching (qpath (qualifiedKey p k) q)
           else EvDiffer (qpath (qualifiedKey p k) q) mv lv)
          \<in> set (events_loop dm sm (local_sub ls k) (qualifiedKey p k))"
      using Cons.IH[of sm dm] sv(2) dv(2) o Cons.prems(4) Cons by simp
    moreover have "set (events_loop dm sm (local_sub ls k) (qualifiedKey p k))
        \<subseteq> set (events_loop dst src ls p)"
      using sub dv(1) o events_loop_subset[of dm sm "local_sub ls k" "qualifiedKey p k"] by simp
    ultimately show ?thesis by auto
  qed
qed

lemma wf_obj_member: "wf_json (JObj src) \<Longrightarrow> map_of src k = Some (JObj sm) \<Longrightarrow> wf_json (JObj sm)"
proof -
  assume w: "wf_json (JObj src)" and m: "map_of src k = Some (JObj sm)"
  have "(k, JObj sm) \<in> set src" using m by (rule map_of_SomeD)
  then have "wf_json (snd (k, JObj sm))" using w by fastforce
  then show ?thesis by simp
qed

lemma merged_at_path:
  "wf_json (JObj src) \<Longrightarrow>
   lookup_path (JObj src) q = Some mv \<Longrightarrow> lookup_path (JObj dst) q = Some lv \<Longrightarrow> q \<noteq> [] \<Longrightarrow>
   as_map mv = None \<or> as_map lv = None \<Longrightarrow>
   lookup_path (JObj (merged_loop force dst src)) q =
     Some (if deep_equal mv lv then lv else if force then mv else lv)"
proof (induction q arbitrary: src dst)
  case Nil
  then show ?case by simp
next
  case (Cons k q)
  from Cons.prems(2) obtain sv where sv: "map_of src k = Some sv" "lookup_path sv q = Some mv"
    by (auto split: option.splits)
  from Cons.prems(3) obtain dv where dv: "map_of dst k = Some dv" "lookup_path dv q = Some lv"
    by (auto split: option.splits)
  have d: "distinct (map fst src)" using Cons.prems(1) by simp
  have look: "map_of (merged_loop force dst src) k = Some (merge_val force sv (Some dv))"
    using merged_loop_lookup[OF d, of force dst k] sv dv by simp
  show ?case
  proof (cases q)
    case Nil
    then have "sv = mv" "dv = lv" using sv dv by auto
    then show ?thesis using look Cons.prems(5) Nil
      by (simp add: merge_val_other)
  next
    case (Cons k' q')
    then obtain sm dm where o: "sv = JObj sm" "dv = JObj dm"
      using lookup_path_is_obj[OF sv(2)] lookup_path_is_obj[OF dv(2)] by auto
    have w: "wf_json (JObj sm)" using wf_obj_member Cons.prems(1) sv(1) o by blast
    have "lookup_path (JObj (merged_loop force dm sm)) q =
        Some (if deep_equal mv lv then lv else if force then mv else lv)"
      using Cons.IH[OF w, of dm] sv(2) dv(2) o Cons.prems(5) Cons by simp
    then show ?thesis using look o by simp
  qed
qed

lemma deep_equal_kind: "deep_equal a b \<Longrightarrow> (as_map a = None) = (as_map b = None)"
  by (cases a; cases b) auto

lemma map_insort_key: "map f (insort_key f x xs) = insort (f x) (map f xs)"
  by (induction xs) auto

lemma map_Key_sort_key: "map Key (sort_key Key cs) = sort (map Key cs)"
  by (induction cs) (simp_all add: map_insort_key)

lemma differ_of_mem:
  "EvDiffer s mv lv \<in> set evs \<Longrightarrow> \<lparr>Key = s, MasterValue = mv, LocalValue = lv\<rparr> \<in> set (differ_of evs)"
  by (induction evs) (auto simp: differ_of_def)

lemma differ_at_path:
  assumes "lookup_path (JObj master) p = Some mv" "lookup_path (JObj local) p = Some lv" "p \<noteq> []"
    "as_map mv = None \<or> as_map lv = None" "\<not> deep_equal mv lv"
  shows "\<lparr>Key = qpath [] p, MasterValue = mv, LocalValue = lv\<rparr> \<in> set (differ_of (merge_events master local))"
proof -
  have "EvDiffer (qpath [] p) mv lv \<in> set (events_loop local master (Some local) [])"
    using events_at_path[OF assms(1-4), of "[]" "Some local"] assms(5) by simp
  then have "EvDiffer (qpath [] p) mv lv \<in> set (merge_events master local)"
    using events_loop_subset unfolding merge_events_def by blast
  then show ?thesis by (rule differ_of_mem)
qed

lemmas merge_eval =
  Merge_def empty_result_def merge_loop.simps mergeInto.simps compare_values_def
  qualifiedKey_def local_sub_def Let_def

fun ev_stop :: "event \<Rightarrow> string list" where
  "ev_stop (EvAdded s) = [s]"
| "ev_stop (EvMatching s) = [s]"
| "ev_stop (EvDiffer s mv lv) = [s]"
| "ev_stop (EvLocalOnly s) = []"

definition stops_of :: "event list \<Rightarrow> string list" where
  "stops_of evs = concat (map ev_stop evs)"

lemma stops_of_append [simp]: "stops_of (a @ b) = stops_of a @ stops_of b"
  by (simp add: stops_of_def)

lemma stops_of_local_only [simp]: "stops_of (map (\<lambda>k. EvLocalOnly (f k)) ks) = []"
  by (induction ks) (auto simp: stops_of_def)

lemma stops_of_events: "stops_of (events dst src ls p) = stops_of (events_loop dst src ls p)"
  by (simp add: events_def)

lemma stop_keys_events: "stop_keys dst src p = stops_of (events_loop dst src ls p)"
proof (induction src arbitrary: dst ls p rule: obj_induct)
  case Nil
  then show ?case by (simp add: stops_of_def)
next
  case (Cons k sv rest)
  have "(case map_of dst k of
        None \<Rightarrow> [qualifiedKey p k]
      | Some lv \<Rightarrow>
          (case (as_map sv, as_map lv) of
             (Some mm, Some lm) \<Rightarrow> stop_keys lm mm (qualifiedKey p k)
           | _ \<Rightarrow> [qualifiedKey p k])) = stops_of (entry_events (map_of dst k) k sv ls p)"
  proof (cases "map_of dst k")
    case None
    then show ?thesis by (simp add: stops_of_def)
  next
    case (Some dv)
    show ?thesis
    proof (cases "as_map sv = None \<or> as_map dv = None")
      case True
      then show ?thesis using Some
        by (auto simp: entry_events_other stops_of_def split: option.splits)
    next
      case False
      then obtain sm dm where o: "sv = JObj sm" "dv = JObj dm"
        by (auto simp: as_map_Some)
      show ?thesis using Some o
        by (simp add: stops_of_events Cons.IH(1)[OF o(1), symmetric])
    qed
  qed
  then show ?case
    by (simp add: events_loop_Cons Cons.IH(2)[symmetric])
qed

lemma mset_stops_of:
  "mset (stops_of evs) = mset (added_of evs) + mset (matching_of evs) + mset (map Key (differ_of evs))"
proof (induction evs)
  case Nil
  then show ?case by (simp add: stops_of_def added_of_def matching_of_def differ_of_def)
next
  case (Cons e evs)
  then show ?case
    by (cases e) (simp_all add: stops_of_def added_of_def matching_of_def differ_of_def)
qed

lemma local_only_of_mem:
  "EvLocalOnly s \<in> set evs \<longleftrightarrow> s \<in> set (local_only_of evs)"
proof (induction evs)
  case Nil
  then show ?case by (simp add: local_only_of_def)
next
  case (Cons e evs)
  then show ?case by (cases e) (auto simp: local_only_of_def)
qed

lemma lookup_path_to_obj: "lookup_path v ks = Some (JObj m) \<Longrightarrow> \<exists>sm. v = JObj sm"
proof (cases ks)
  case Nil
  assume "lookup_path v ks = Some (JObj m)"
  then show ?thesis using Nil by simp
next
  case (Cons a list)
  assume "lookup_path v ks = Some (JObj m)"
  then show ?thesis using lookup_path_is_obj[of v ks "JObj m"] Cons by simp
qed

lemma local_sub_self: "map_of dst k = Some (JObj dm) \<Longrightarrow> local_sub (Some dst) k = Some dm"
  by (simp add: local_sub_def)

lemma local_only_at_path:
  "lookup_path (JObj src) ks = Some (JObj m) \<Longrightarrow> lookup_path (JObj dst) ks = Some (JObj l) \<Longrightarrow>
   map_of l k = Some v \<Longrightarrow> map_of m k = None \<Longrightarrow>
   EvLocalOnly (qpath p (ks @ [k])) \<in> set (events dst src (Some dst) p)"
proof (induction ks arbitrary: src dst p)
  case Nil
  then have "src = m" "dst = l" by auto
  moreover have "k \<in> fst ` set l" using Nil.prems(3) by (auto dest!: map_of_SomeD intro: rev_image_eqI)
  ultimately have "k \<in> set (local_only_keys dst src (Some dst))"
    using Nil.prems(3,4) by (auto simp: local_only_keys_def)
  then show ?case by (auto simp: events_def)
next
  case (Cons k1 ks)
  from Cons.prems(1) obtain sv where sv: "map_of src k1 = Some sv" "lookup_path sv ks = Some (JObj m)"
    by (auto split: option.splits)
  from Cons.prems(2) obtain dv where dv: "map_of dst k1 = Some dv" "lookup_path dv ks = Some (JObj l)"
    by (auto split: option.splits)
  have "\<exists>sm. sv = JObj sm"
    using sv(2) by (rule lookup_path_to_obj)
  moreover have "\<exists>dm. dv = JObj dm"
    using dv(2) by (rule lookup_path_to_obj)
  ultimately obtain sm dm where o: "sv = JObj sm" "dv = JObj dm" by blast
  have mem: "(k1, sv) \<in> set src" using sv(1) by (rule map_of_SomeD)
  have "EvLocalOnly (qpath (qualifiedKey p k1) (ks @ [k]))
      \<in> set (events dm sm (Some dm) (qualifiedKey p k1))"
    using Cons.IH[of sm dm] sv(2) dv(2) o Cons.prems(3,4) by simp
  moreover have "set (events dm sm (Some dm) (qualifiedKey p k1)) \<subseteq> set (events_loop dst src (Some dst) p)"
    using entry_events_subset[OF mem, of dst "Some dst" p] dv(1) o
    by (simp add: local_sub_self)
  ultimately show ?case using events_loop_subset[of dst src "Some dst" p] by auto
qed

lemma merged_local_only_path:
  "wf_json (JObj src) \<Longrightarrow>
   lookup_path (JObj src) ks = Some (JObj m) \<Longrightarrow> lookup_path (JObj dst) ks = Some (JObj l) \<Longrightarrow>
   map_of l k = Some v \<Longrightarrow> map_of m k = None \<Longrightarrow>
   lookup_path (JObj (merged_loop force dst src)) (ks @ [k]) = Some v"
proof (induction ks arbitrary: src dst)
  case Nil
  then have e: "src = m" "dst = l" by auto
  have d: "distinct (map fst src)" using Nil.prems(1) by simp
  show ?case using merged_loop_lookup[OF d, of force dst k] Nil.prems(4,5) e by simp
next
  case (Cons k1 ks)
  from Cons.prems(2) obtain sv where sv: "map_of src k1 = Some sv" "lookup_path sv ks = Some (JObj m)"
    by (auto split: option.splits)
  from Cons.prems(3) obtain dv where dv: "map_of dst k1 = Some dv" "lookup_path dv ks = Some (JObj l)"
    by (auto split: option.splits)
  have "\<exists>sm. sv = JObj sm"
    using sv(2) by (rule lookup_path_to_obj)
  moreover have "\<exists>dm. dv = JObj dm"
    using dv(2) by (rule lookup_path_to_obj)
  ultimately obtain sm dm where o: "sv = JObj sm" "dv = JObj dm" by blast
  have d: "distinct (map fst src)" using Cons.prems(1) by simp
  have w: "wf_json (JObj sm)" using wf_obj_member Cons.prems(1) sv(1) o by blast
  have look: "map_of (merged_loop force dst src) k1 = Some (JObj (merged_loop force dm sm))"
    using merged_loop_lookup[OF d, of force dst k1] sv dv o by simp
  have "lookup_path (JObj (merged_loop force dm sm)) (ks @ [k]) = Some v"
    using Cons.IH[OF w, of dm] sv(2) dv(2) o Cons.prems(4,5) by simp
  then show ?case using look by simp
qed

lemma events_loop_local_only_origin:
  "EvLocalOnly s \<in> set (events_loop dst src ls p) \<Longrightarrow>
   \<exists>k sm dm. (k, JObj sm) \<in> set src \<and> map_of dst k = Some (JObj dm) \<and>
      EvLocalOnly s \<in> set (events dm sm (local_sub ls k) (qualifiedKey p k))"
proof (induction src)
  case Nil
  then show ?case by simp
next
  case (Cons a src)
  obtain k sv where a: "a = (k, sv)" by (cases a)
  from Cons.prems consider
      (head) "EvLocalOnly s \<in> set (entry_events (map_of dst k) k sv ls p)"
    | (tail) "EvLocalOnly s \<in> set (events_loop dst src ls p)"
    by (auto simp: a events_loop_Cons)
  then show ?case
  proof cases
    case head
    show ?thesis
    proof (cases "map_of dst k")
      case None
      then show ?thesis using head by simp
    next
      case (Some dv)
      show ?thesis
      proof (cases "as_map sv = None \<or> as_map dv = None")
        case True
        then show ?thesis using head Some by (auto simp: entry_events_other split: if_splits)
      next
        case False
        then obtain sm dm where o: "sv = JObj sm" "dv = JObj dm"
          by (auto simp: as_map_Some)
        then show ?thesis using head Some a by auto
      qed
    qed
  next
    case tail
    then show ?thesis using Cons.IH by auto
  qed
qed

lemma local_only_sound:
  "wf_json (JObj src) \<Longrightarrow> EvLocalOnly s \<in> set (events dst src ls p) \<Longrightarrow>
   \<exists>q. s = qpath p q \<and> q \<noteq> [] \<and> lookup_path (JObj dst) q \<noteq> None \<and> lookup_path (JObj src) q = None"
proof (induction src arbitrary: dst ls p rule: measure_induct_rule [where f = "\<lambda>s. size (JObj s)"])
  case (less src)
  from less.prems(2) consider
      (here) "EvLocalOnly s \<in> set (map (\<lambda>k. EvLocalOnly (qualifiedKey p k)) (local_only_keys dst src ls))"
    | (below) "EvLocalOnly s \<in> set (events_loop dst src ls p)"
    by (auto simp: events_def)
  then show ?case
  proof cases
    case here
    then obtain k where k: "s = qualifiedKey p k" "k \<in> set (local_only_keys dst src ls)" by auto
    then have "k \<in> fst ` set dst" "map_of src k = None" by (auto simp: local_only_keys_def)
    then have "lookup_path (JObj dst) [k] \<noteq> None" "lookup_path (JObj src) [k] = None"
      by (auto simp: map_of_eq_None_iff split: option.splits)
    then show ?thesis using k(1) by (intro exI[of _ "[k]"]) simp
  next
    case below
    then obtain k sm dm where o: "(k, JObj sm) \<in> set src" "map_of dst k = Some (JObj dm)"
      "EvLocalOnly s \<in> set (events dm sm (local_sub ls k) (qualifiedKey p k))"
      using events_loop_local_only_origin by blast
    have d: "distinct (map fst src)" using less.prems(1) by simp
    have ms: "map_of src k = Some (JObj sm)" using o(1) d by simp
    have w: "wf_json (JObj sm)" using wf_obj_member less.prems(1) ms by blast
    have sz: "size (JObj sm) < size (JObj src)"
      using o(1) by (induction src) auto
    from less.IH[OF sz w o(3)] obtain q where q: "s = qpath (qualifiedKey p k) q" "q \<noteq> []"
      "lookup_path (JObj dm) q \<noteq> None" "lookup_path (JObj sm) q = None" by blast
    show ?thesis using q ms o(2) by (intro exI[of _ "k # q"]) simp
  qed
qed

lemma deep_equal_refl: "wf_json v \<Longrightarrow> deep_equal v v"
proof (induction v)
  case (JList vs)
  then show ?case by (auto simp: list_all2_same)
next
  case (JObj kvs)
  have "case map_of kvs k of None \<Rightarrow> False | Some w \<Rightarrow> deep_equal v w" if "(k, v) \<in> set kvs" for k v
  proof -
    have "map_of kvs k = Some v" using that JObj.prems by simp
    moreover have "deep_equal v v"
      using JObj.IH[OF that] that JObj.prems by fastforce
    ultimately show ?thesis by simp
  qed
  then show ?case by auto
qed simp_all

lemma added_of_Nil [simp]: "added_of [] = []"
  by (simp add: added_of_def)

lemma added_of_Cons [simp]: "added_of (e # es) = ev_added e @ added_of es"
  by (simp add: added_of_def)

lemma differ_of_Nil [simp]: "differ_of [] = []"
  by (simp add: differ_of_def)

lemma differ_of_Cons [simp]: "differ_of (e # es) = ev_differ e @ differ_of es"
  by (simp add: differ_of_def)

lemma added_of_append [simp]: "added_of (a @ b) = added_of a @ added_of b"
  by (simp add: added_of_def)

lemma differ_of_append [simp]: "differ_of (a @ b) = differ_of a @ differ_of b"
  by (simp add: differ_of_def)

lemma added_of_local_only [simp]: "added_of (map (\<lambda>k. EvLocalOnly (f k)) ks) = []"
  by (induction ks) (auto simp: added_of_def)

lemma differ_of_local_only [simp]: "differ_of (map (\<lambda>k. EvLocalOnly (f k)) ks) = []"
  by (induction ks) (auto simp: differ_of_def)

lemma added_of_events: "added_of (events dst src ls p) = added_of (events_loop dst src ls p)"
  by (simp add: events_def)

lemma differ_of_events: "differ_of (events dst src ls p) = differ_of (events_loop dst src ls p)"
  by (simp add: events_def)

lemma wf_obj_self: "wf_json (JObj m) \<Longrightarrow> \<forall>(k, v) \<in> set m. map_of m k = Some v"
  by auto

text \<open>Merging an object into a tree that already holds each of its entries changes nothing.\<close>

lemma merge_into_superset:
  "wf_json (JObj src) \<Longrightarrow> \<forall>(k, v) \<in> set src. map_of dst k = Some v \<Longrightarrow>
   merged_loop force dst src = dst
   \<and> added_of (events_loop dst src ls p) = []
   \<and> differ_of (events_loop dst src ls p) = []"
proof (induction src arbitrary: dst ls p rule: obj_induct)
  case Nil
  then show ?case by (simp add:)
next
  case (Cons k sv rest)
  have look: "map_of dst k = Some sv" using Cons.prems(2) by simp
  have wr: "wf_json (JObj rest)" and sr: "\<forall>(k, v) \<in> set rest. map_of dst k = Some v"
    and wsv: "wf_json sv"
    using Cons.prems by auto
  have val: "merge_val force sv (Some sv) = sv"
    and ev: "added_of (entry_events (Some sv) k sv ls p) = []"
            "differ_of (entry_events (Some sv) k sv ls p) = []"
  proof -
    show "merge_val force sv (Some sv) = sv"
    proof (cases "as_map sv")
      case None
      then show ?thesis by (simp add: merge_val_other)
    next
      case (Some sm)
      then have o: "sv = JObj sm" by (simp add: as_map_Some)
      then have "wf_json (JObj sm)" using wsv by simp
      from Cons.IH(1)[OF o this wf_obj_self[OF this]] show ?thesis using o by simp
    qed
    show "added_of (entry_events (Some sv) k sv ls p) = []"
      "differ_of (entry_events (Some sv) k sv ls p) = []"
    proof (atomize (full), cases "as_map sv")
      case None
      then show "added_of (entry_events (Some sv) k sv ls p) = [] \<and>
        differ_of (entry_events (Some sv) k sv ls p) = []"
        using deep_equal_refl[OF wsv]
        by (simp add: entry_events_other)
    next
      case (Some sm)
      then have o: "sv = JObj sm" by (simp add: as_map_Some)
      then have "wf_json (JObj sm)" using wsv by simp
      from Cons.IH(1)[OF o this wf_obj_self[OF this]]
      show "added_of (entry_events (Some sv) k sv ls p) = [] \<and>
        differ_of (entry_events (Some sv) k sv ls p) = []"
        using o by (simp add: added_of_events differ_of_events)
    qed
  qed
  show ?case
    using Cons.IH(2)[OF wr sr] look
    by (simp add: merged_loop_Cons events_loop_Cons val ev update_triv)
qed

text \<open>Merging master a second time, without force, into the tree the first merge left.\<close>

lemma merge_twice:
  "wf_json (JObj src) \<Longrightarrow>
   merged_loop False (merged_loop False dst src) src = merged_loop False dst src
   \<and> added_of (events_loop (merged_loop False dst src) src ls' p) = []
   \<and> differ_of (events_loop (merged_loop False dst src) src ls' p)
       = differ_of (events_loop dst src ls p)"
proof (induction src arbitrary: dst ls ls' p rule: obj_induct)
  case Nil
  then show ?case by (simp add:)
next
  case (Cons k sv rest)
  have nk: "k \<notin> fst ` set rest" and wr: "wf_json (JObj rest)" and wsv: "wf_json sv"
    and dr: "distinct (map fst rest)"
    using Cons.prems by auto
  define x where "x = merge_val False sv (map_of dst k)"
  define d2 where "d2 = AList.update k x dst"
  define T where "T = merged_loop False d2 rest"
  have T: "merged_loop False dst ((k, sv) # rest) = T"
    by (simp add: merged_loop_Cons T_def d2_def x_def)
  have nr: "map_of rest k = None" using nk by (simp add: map_of_eq_None_iff)
  have "map_of d2 k = Some x" by (simp add: d2_def update_conv')
  then have lookT: "map_of T k = Some x"
    using merged_loop_lookup[OF dr, of False d2 k] nr
    by (simp add: T_def)
  have cong: "events_loop d2 rest ls p = events_loop dst rest ls p"
    unfolding d2_def by (rule events_loop_cong) (use nk in \<open>auto simp: update_conv'\<close>)
  have entry: "merge_val False sv (Some x) = x
     \<and> added_of (entry_events (Some x) k sv ls' p) = []
     \<and> differ_of (entry_events (Some x) k sv ls' p)
         = differ_of (entry_events (map_of dst k) k sv ls p)"
  proof (cases "map_of dst k")
    case None
    then have x: "x = sv" by (simp add: x_def)
    show ?thesis
    proof (cases "as_map sv")
      case None
      then show ?thesis using x \<open>map_of dst k = None\<close> deep_equal_refl[OF wsv]
        by (simp add: merge_val_other entry_events_other)
    next
      case (Some sm)
      then have o: "sv = JObj sm" by (simp add: as_map_Some)
      then have w: "wf_json (JObj sm)" using wsv by simp
      from merge_into_superset[OF w wf_obj_self[OF w]]
      show ?thesis using x o \<open>map_of dst k = None\<close>
        by (simp add: added_of_events differ_of_events)
    qed
  next
    case (Some dv)
    show ?thesis
    proof (cases "as_map sv = None \<or> as_map dv = None")
      case True
      then have "x = dv" using Some by (simp add: x_def merge_val_other)
      then show ?thesis using True Some
        by (auto simp: merge_val_other entry_events_other)
    next
      case False
      then obtain sm dm where o: "sv = JObj sm" "dv = JObj dm"
        by (auto simp: as_map_Some)
      have w: "wf_json (JObj sm)" using wsv o by simp
      have x: "x = JObj (merged_loop False dm sm)" using Some o by (simp add: x_def)
      from Cons.IH(1)[OF o(1) w, of dm "local_sub ls' k" "qualifiedKey p k" "local_sub ls k"]
      show ?thesis using x o Some
        by (simp add: added_of_events differ_of_events)
    qed
  qed
  have rest: "merged_loop False T rest = T
     \<and> added_of (events_loop T rest ls' p) = []
     \<and> differ_of (events_loop T rest ls' p) = differ_of (events_loop d2 rest ls p)"
    unfolding T_def by (rule Cons.IH(2)[OF wr])
  show ?case
    unfolding T
    using entry rest lookT
    by (simp add: merged_loop_Cons events_loop_Cons update_triv cong)
qed

lemma distinct_merged_loop:
  "distinct (map fst dst) \<Longrightarrow> distinct (map fst (merged_loop force dst src))"
  by (induction src arbitrary: dst) (auto simp: merged_loop_Cons distinct_update)


section \<open>Claims about the merge engine\<close>

text \<open>
  C3 (force and non-force runs). For a key path that master and local share, whose two values
  are not both objects and are not deeply equal: without force the key is a conflict holding
  both values and the merged tree keeps the local value; with force the key is in
  \<^verbatim>\<open>Forced\<close> and the merged tree holds the master value. Every other classification agrees
  between the two runs: the forced keys are exactly the keys of the conflicts, the opposite
  list is empty in each run, and \<^verbatim>\<open>Added\<close>, \<^verbatim>\<open>Matching\<close> and \<^verbatim>\<open>LocalOnly\<close> are the same lists.
\<close>

theorem force_duality:
  assumes "wf_json (JObj master)" and "wf_json (JObj local)"
    and "lookup_path (JObj master) p = Some mv"
    and "lookup_path (JObj local) p = Some lv"
    and "p \<noteq> []"
    and "as_map mv = None \<or> as_map lv = None"
    and "\<not> deep_equal mv lv"
  shows "\<lparr>Key = qpath [] p, MasterValue = mv, LocalValue = lv\<rparr>
           \<in> set (Conflicts (Merge master local False))
       \<and> lookup_path (JObj (Merged (Merge master local False))) p = Some lv
       \<and> qpath [] p \<in> set (Forced (Merge master local True))
       \<and> lookup_path (JObj (Merged (Merge master local True))) p = Some mv
       \<and> Forced (Merge master local True) = map Key (Conflicts (Merge master local False))
       \<and> Conflicts (Merge master local True) = []
       \<and> Forced (Merge master local False) = []
       \<and> Added (Merge master local True) = Added (Merge master local False)
       \<and> Matching (Merge master local True) = Matching (Merge master local False)
       \<and> LocalOnly (Merge master local True) = LocalOnly (Merge master local False)"
proof -
  have d: "distinct (map fst local)" using assms(2) by simp
  note pure = Merge_pure[OF assms(1) d]
  have c: "\<lparr>Key = qpath [] p, MasterValue = mv, LocalValue = lv\<rparr>
      \<in> set (differ_of (merge_events master local))"
    using assms(3-7) by (rule differ_at_path)
  have k: "qpath [] p \<in> Key ` set (differ_of (merge_events master local))"
    using c by force
  have t: "lookup_path (JObj (merged_loop force local master)) p =
      Some (if force then mv else lv)" for force
    using merged_at_path[OF assms(1) assms(3-6), of force] assms(7) by simp
  show ?thesis
    using c k t[of True] t[of False]
    by (simp add: pure map_Key_sort_key)
qed

theorem force_duality_witness:
  "\<lparr>Key = ''nested.shared'', MasterValue = JStr ''master'', LocalValue = JStr ''local''\<rparr>
       \<in> set (Conflicts (Merge
            [(''nested'', JObj [(''fromMaster'', JStr ''yes''), (''shared'', JStr ''master'')])]
            [(''nested'', JObj [(''fromLocal'', JStr ''yes''), (''shared'', JStr ''local'')])] False))
   \<and> lookup_path (JObj (Merged (Merge
            [(''nested'', JObj [(''fromMaster'', JStr ''yes''), (''shared'', JStr ''master'')])]
            [(''nested'', JObj [(''fromLocal'', JStr ''yes''), (''shared'', JStr ''local'')])] True)))
         [''nested'', ''shared''] = Some (JStr ''master'')"
proof -
  let ?M = "[(''nested'', JObj [(''fromMaster'', JStr ''yes''), (''shared'', JStr ''master'')])]"
  let ?L = "[(''nested'', JObj [(''fromLocal'', JStr ''yes''), (''shared'', JStr ''local'')])]"
  have 1: "wf_json (JObj ?M)" by simp
  have 2: "wf_json (JObj ?L)" by simp
  have 3: "lookup_path (JObj ?M) [''nested'', ''shared''] = Some (JStr ''master'')" by simp
  have 4: "lookup_path (JObj ?L) [''nested'', ''shared''] = Some (JStr ''local'')" by simp
  have 5: "[''nested'', ''shared''] \<noteq> []" by simp
  have 6: "as_map (JStr ''master'') = None \<or> as_map (JStr ''local'') = None" by simp
  have 7: "\<not> deep_equal (JStr ''master'') (JStr ''local'')" by simp
  have q: "qpath [] [''nested'', ''shared''] = ''nested.shared''"
    by (simp add: qualifiedKey_def)
  show ?thesis
    using force_duality[OF 1 2 3 4 5 6 7] unfolding q by blast
qed

text \<open>
  C5 (object against non-object). Where a shared key path holds an object on one side and a
  value that is not an object on the other, the merge records an ordinary conflict carrying
  both values and keeps the local value; there is no other path through the code for it. The
  last conjunct is the example of the specification, evaluated in full: one conflict, for
  \<open>k\<close>, and \<open>k\<close> still \<open>scalar\<close>.
\<close>

theorem type_mismatch_is_conflict:
  assumes "wf_json (JObj master)" and "wf_json (JObj local)"
    and "lookup_path (JObj master) p = Some mv"
    and "lookup_path (JObj local) p = Some lv"
    and "p \<noteq> []"
    and "(as_map mv = None) \<noteq> (as_map lv = None)"
  shows "\<lparr>Key = qpath [] p, MasterValue = mv, LocalValue = lv\<rparr>
           \<in> set (Conflicts (Merge master local False))
       \<and> lookup_path (JObj (Merged (Merge master local False))) p = Some lv
       \<and> Merge [(''k'', JObj [(''n'', JStr ''v'')])] [(''k'', JStr ''scalar'')] False =
           \<lparr>Merged = [(''k'', JStr ''scalar'')],
            Conflicts = [\<lparr>Key = ''k'', MasterValue = JObj [(''n'', JStr ''v'')],
                          LocalValue = JStr ''scalar''\<rparr>],
            Forced = [], Added = [], Matching = [], LocalOnly = []\<rparr>"
proof -
  have d: "distinct (map fst local)" using assms(2) by simp
  have ne: "\<not> deep_equal mv lv" using assms(6) deep_equal_kind by blast
  have nb: "as_map mv = None \<or> as_map lv = None" using assms(6) by auto
  have c: "\<lparr>Key = qpath [] p, MasterValue = mv, LocalValue = lv\<rparr>
      \<in> set (differ_of (merge_events master local))"
    using assms(3-5) nb ne by (rule differ_at_path)
  have t: "lookup_path (JObj (merged_loop False local master)) p = Some lv"
    using merged_at_path[OF assms(1) assms(3-5) nb, of False] by simp
  have ex: "Merge [(''k'', JObj [(''n'', JStr ''v'')])] [(''k'', JStr ''scalar'')] False =
           \<lparr>Merged = [(''k'', JStr ''scalar'')],
            Conflicts = [\<lparr>Key = ''k'', MasterValue = JObj [(''n'', JStr ''v'')],
                          LocalValue = JStr ''scalar''\<rparr>],
            Forced = [], Added = [], Matching = [], LocalOnly = []\<rparr>"
    by (simp add: merge_eval)
  show ?thesis
    using c t ex by (simp add: Merge_pure[OF assms(1) d])
qed

theorem type_mismatch_is_conflict_witness:
  "\<lparr>Key = ''k'', MasterValue = JObj [(''n'', JStr ''v'')], LocalValue = JStr ''scalar''\<rparr>
       \<in> set (Conflicts (Merge [(''k'', JObj [(''n'', JStr ''v'')])] [(''k'', JStr ''scalar'')] False))
   \<and> lookup_path (JObj (Merged (Merge [(''k'', JObj [(''n'', JStr ''v'')])]
         [(''k'', JStr ''scalar'')] False))) [''k''] = Some (JStr ''scalar'')"
proof -
  let ?M = "[(''k'', JObj [(''n'', JStr ''v'')])]"
  let ?L = "[(''k'', JStr ''scalar'')]"
  have 1: "wf_json (JObj ?M)" by simp
  have 2: "wf_json (JObj ?L)" by simp
  have 3: "lookup_path (JObj ?M) [''k''] = Some (JObj [(''n'', JStr ''v'')])" by simp
  have 4: "lookup_path (JObj ?L) [''k''] = Some (JStr ''scalar'')" by simp
  have 5: "[''k''] \<noteq> []" by simp
  have 6: "(as_map (JObj [(''n'', JStr ''v'')]) = None) \<noteq> (as_map (JStr ''scalar'') = None)" by simp
  have q: "qpath [] [''k''] = ''k''" by (simp add: qualifiedKey_def)
  show ?thesis
    using type_mismatch_is_conflict[OF 1 2 3 4 5 6] unfolding q by blast
qed


text \<open>
  C1 (the four lists against the keys of master), as amended. The four lists together hold
  exactly the keys at which the traversal stops (\<open>stop_keys\<close>), each occurrence once, so
  their lengths add up to the number of those keys. The claim as stated counts the leaves of
  master: that fails where local lacks a key whose master value is an object, since the whole
  subtree is then one \<^verbatim>\<open>Added\<close> entry.
\<close>

theorem classification_partition:
  assumes "wf_json (JObj master)" and "wf_json (JObj local)"
  shows "mset (Added (Merge master local force)) + mset (Matching (Merge master local force))
         + mset (map Key (Conflicts (Merge master local force)))
         + mset (Forced (Merge master local force))
         = mset (stop_keys local master [])
       \<and> length (Added (Merge master local force)) + length (Matching (Merge master local force))
         + length (Conflicts (Merge master local force))
         + length (Forced (Merge master local force))
         = length (stop_keys local master [])"
proof -
  have d: "distinct (map fst local)" using assms(2) by simp
  let ?evs = "merge_events master local"
  have s: "stop_keys local master [] = stops_of ?evs"
    unfolding merge_events_def stops_of_events by (rule stop_keys_events)
  have m: "mset (Added (Merge master local force)) + mset (Matching (Merge master local force))
         + mset (map Key (Conflicts (Merge master local force)))
         + mset (Forced (Merge master local force)) = mset (stop_keys local master [])"
    unfolding s mset_stops_of by (simp add: Merge_pure[OF assms(1) d])
  have "size (mset (Added (Merge master local force)) + mset (Matching (Merge master local force))
         + mset (map Key (Conflicts (Merge master local force)))
         + mset (Forced (Merge master local force))) = size (mset (stop_keys local master []))"
    using m by simp
  then have "length (Added (Merge master local force)) + length (Matching (Merge master local force))
         + length (Conflicts (Merge master local force))
         + length (Forced (Merge master local force))
         = length (stop_keys local master [])"
    by simp
  with m show ?thesis by blast
qed

theorem classification_partition_witness:
  "mset (Added (Merge [(''outer'', JObj [(''new'', JNum 1), (''same'', JBool True)]), (''theme'', JStr ''dark'')]
                      [(''outer'', JObj [(''old'', JNum 2), (''same'', JBool True)]), (''theme'', JStr ''light'')] False))
   + mset (Matching (Merge [(''outer'', JObj [(''new'', JNum 1), (''same'', JBool True)]), (''theme'', JStr ''dark'')]
                      [(''outer'', JObj [(''old'', JNum 2), (''same'', JBool True)]), (''theme'', JStr ''light'')] False))
   + mset (map Key (Conflicts (Merge [(''outer'', JObj [(''new'', JNum 1), (''same'', JBool True)]), (''theme'', JStr ''dark'')]
                      [(''outer'', JObj [(''old'', JNum 2), (''same'', JBool True)]), (''theme'', JStr ''light'')] False)))
   + mset (Forced (Merge [(''outer'', JObj [(''new'', JNum 1), (''same'', JBool True)]), (''theme'', JStr ''dark'')]
                      [(''outer'', JObj [(''old'', JNum 2), (''same'', JBool True)]), (''theme'', JStr ''light'')] False))
   = mset [''outer.new'', ''outer.same'', ''theme'']"
proof -
  let ?M = "[(''outer'', JObj [(''new'', JNum 1), (''same'', JBool True)]), (''theme'', JStr ''dark'')]"
  let ?L = "[(''outer'', JObj [(''old'', JNum 2), (''same'', JBool True)]), (''theme'', JStr ''light'')]"
  have 1: "wf_json (JObj ?M)" by simp
  have 2: "wf_json (JObj ?L)" by simp
  have s: "stop_keys ?L ?M [] = [''outer.new'', ''outer.same'', ''theme'']"
    by (simp add: qualifiedKey_def)
  show ?thesis
    using classification_partition[OF 1 2, of False] unfolding s by blast
qed

text \<open>
  The claim C1 as stated fails for master \<open>{"a": {"x": 1, "y": 2}}\<close> and an empty local: the
  only entry of the four lists is \<open>a\<close> in \<^verbatim>\<open>Added\<close>, while master has the two leaves \<open>a.x\<close> and
  \<open>a.y\<close>, neither of which is in any list. With local \<open>{"a": {}}\<close> the same master gives two
  entries, so the total is not a function of master alone.
\<close>

theorem classification_partition_counterexample:
  "Added (Merge [(''a'', JObj [(''x'', JNum 1), (''y'', JNum 2)])] [] False) = [''a'']
   \<and> Matching (Merge [(''a'', JObj [(''x'', JNum 1), (''y'', JNum 2)])] [] False) = []
   \<and> Conflicts (Merge [(''a'', JObj [(''x'', JNum 1), (''y'', JNum 2)])] [] False) = []
   \<and> Forced (Merge [(''a'', JObj [(''x'', JNum 1), (''y'', JNum 2)])] [] False) = []
   \<and> master_leaf_keys [(''a'', JObj [(''x'', JNum 1), (''y'', JNum 2)])] [] = [''a.x'', ''a.y'']
   \<and> length (Added (Merge [(''a'', JObj [(''x'', JNum 1), (''y'', JNum 2)])] [] False))
       + length (Matching (Merge [(''a'', JObj [(''x'', JNum 1), (''y'', JNum 2)])] [] False))
       + length (Conflicts (Merge [(''a'', JObj [(''x'', JNum 1), (''y'', JNum 2)])] [] False))
       + length (Forced (Merge [(''a'', JObj [(''x'', JNum 1), (''y'', JNum 2)])] [] False))
       \<noteq> length (master_leaf_keys [(''a'', JObj [(''x'', JNum 1), (''y'', JNum 2)])] [])
   \<and> Added (Merge [(''a'', JObj [(''x'', JNum 1), (''y'', JNum 2)])] [(''a'', JObj [])] False)
       = [''a.x'', ''a.y'']"
  by (simp add: merge_eval)

text \<open>
  C4 (merging twice). Merging master, without force, into the tree a first such merge returned
  adds nothing, reports exactly the conflicts of the first run and no others, and returns its
  input tree unchanged.
\<close>

theorem merge_idempotent:
  assumes "wf_json (JObj master)" and "wf_json (JObj local)"
  shows "Added (Merge master (Merged (Merge master local False)) False) = []
       \<and> Conflicts (Merge master (Merged (Merge master local False)) False)
           = Conflicts (Merge master local False)
       \<and> Merged (Merge master (Merged (Merge master local False)) False)
           = Merged (Merge master local False)"
proof -
  have d: "distinct (map fst local)" using assms(2) by simp
  let ?T = "merged_loop False local master"
  have dT: "distinct (map fst ?T)" using d by (rule distinct_merged_loop)
  have m1: "Merged (Merge master local False) = ?T"
    by (simp add: Merge_pure[OF assms(1) d])
  from merge_twice[OF assms(1), of local "Some ?T" "[]" "Some local"]
  have tw: "merged_loop False ?T master = ?T"
    "added_of (merge_events master ?T) = []"
    "differ_of (merge_events master ?T) = differ_of (merge_events master local)"
    by (simp_all add: merge_events_def added_of_events differ_of_events)
  show ?thesis
    unfolding m1
    by (simp add: Merge_pure[OF assms(1) dT] Merge_pure[OF assms(1) d] tw)
qed

theorem merge_idempotent_witness:
  "Added (Merge [(''outer'', JObj [(''new'', JNum 1)]), (''theme'', JStr ''dark'')]
      (Merged (Merge [(''outer'', JObj [(''new'', JNum 1)]), (''theme'', JStr ''dark'')]
                     [(''outer'', JObj [(''old'', JNum 2)]), (''theme'', JStr ''light'')] False)) False) = []
   \<and> Conflicts (Merge [(''outer'', JObj [(''new'', JNum 1)]), (''theme'', JStr ''dark'')]
      (Merged (Merge [(''outer'', JObj [(''new'', JNum 1)]), (''theme'', JStr ''dark'')]
                     [(''outer'', JObj [(''old'', JNum 2)]), (''theme'', JStr ''light'')] False)) False)
     = [\<lparr>Key = ''theme'', MasterValue = JStr ''dark'', LocalValue = JStr ''light''\<rparr>]
   \<and> Merged (Merge [(''outer'', JObj [(''new'', JNum 1)]), (''theme'', JStr ''dark'')]
      (Merged (Merge [(''outer'', JObj [(''new'', JNum 1)]), (''theme'', JStr ''dark'')]
                     [(''outer'', JObj [(''old'', JNum 2)]), (''theme'', JStr ''light'')] False)) False)
     = [(''outer'', JObj [(''old'', JNum 2), (''new'', JNum 1)]), (''theme'', JStr ''light'')]"
proof -
  let ?M = "[(''outer'', JObj [(''new'', JNum 1)]), (''theme'', JStr ''dark'')]"
  let ?L = "[(''outer'', JObj [(''old'', JNum 2)]), (''theme'', JStr ''light'')]"
  have 1: "wf_json (JObj ?M)" by simp
  have 2: "wf_json (JObj ?L)" by simp
  have c: "Conflicts (Merge ?M ?L False)
      = [\<lparr>Key = ''theme'', MasterValue = JStr ''dark'', LocalValue = JStr ''light''\<rparr>]"
    by (simp add: merge_eval)
  have m: "Merged (Merge ?M ?L False)
      = [(''outer'', JObj [(''old'', JNum 2), (''new'', JNum 1)]), (''theme'', JStr ''light'')]"
    by (simp add: merge_eval)
  show ?thesis
    using merge_idempotent[OF 1 2] unfolding c m by blast
qed

text \<open>
  C6 (keys only in local), as amended. Take a key of a local object that master lacks at that
  place, where the place itself is reached by the traversal: every enclosing key holds an
  object in master and in local (no condition for a top-level key). Under either force setting
  the key is reported in \<^verbatim>\<open>LocalOnly\<close> and the merged tree holds its value unchanged.
  Conversely every entry of \<^verbatim>\<open>LocalOnly\<close> is the qualified key of a path that the original local
  has and master does not have, so a key taken over from master is never reported there.
\<close>

theorem local_only_preserved:
  assumes "wf_json (JObj master)" and "wf_json (JObj local)"
    and "lookup_path (JObj master) ks = Some (JObj m)"
    and "lookup_path (JObj local) ks = Some (JObj l)"
    and "map_of l k = Some v"
    and "map_of m k = None"
  shows "qpath [] (ks @ [k]) \<in> set (LocalOnly (Merge master local force))
       \<and> lookup_path (JObj (Merged (Merge master local force))) (ks @ [k]) = Some v
       \<and> (\<forall>s \<in> set (LocalOnly (Merge master local force)).
            \<exists>q. s = qpath [] q \<and> lookup_path (JObj local) q \<noteq> None
               \<and> lookup_path (JObj master) q = None)"
proof -
  have d: "distinct (map fst local)" using assms(2) by simp
  note pure = Merge_pure[OF assms(1) d]
  have 1: "qpath [] (ks @ [k]) \<in> set (local_only_of (merge_events master local))"
    using local_only_at_path[OF assms(3-6), of "[]"]
    unfolding merge_events_def local_only_of_mem .
  have 2: "lookup_path (JObj (merged_loop force local master)) (ks @ [k]) = Some v"
    using assms(1,3-6) by (rule merged_local_only_path)
  have 3: "\<exists>q. s = qpath [] q \<and> lookup_path (JObj local) q \<noteq> None
               \<and> lookup_path (JObj master) q = None"
    if "s \<in> set (local_only_of (merge_events master local))" for s
  proof -
    have "EvLocalOnly s \<in> set (events local master (Some local) [])"
      using that unfolding merge_events_def local_only_of_mem .
    from local_only_sound[OF assms(1) this] show ?thesis by blast
  qed
  show ?thesis using 1 2 3 by (simp add: pure)
qed

theorem local_only_preserved_witness:
  "''nested.localOnlyNested'' \<in> set (LocalOnly (Merge
       [(''nested'', JObj [(''masterOnlyNested'', JStr ''v'')])]
       [(''nested'', JObj [(''localOnlyNested'', JStr ''v'')])] True))
   \<and> lookup_path (JObj (Merged (Merge
       [(''nested'', JObj [(''masterOnlyNested'', JStr ''v'')])]
       [(''nested'', JObj [(''localOnlyNested'', JStr ''v'')])] True)))
       [''nested'', ''localOnlyNested''] = Some (JStr ''v'')"
proof -
  let ?M = "[(''nested'', JObj [(''masterOnlyNested'', JStr ''v'')])]"
  let ?L = "[(''nested'', JObj [(''localOnlyNested'', JStr ''v'')])]"
  have 1: "wf_json (JObj ?M)" by simp
  have 2: "wf_json (JObj ?L)" by simp
  have 3: "lookup_path (JObj ?M) [''nested''] = Some (JObj [(''masterOnlyNested'', JStr ''v'')])" by simp
  have 4: "lookup_path (JObj ?L) [''nested''] = Some (JObj [(''localOnlyNested'', JStr ''v'')])" by simp
  have 5: "map_of [(''localOnlyNested'', JStr ''v'')] ''localOnlyNested'' = Some (JStr ''v'')" by simp
  have 6: "map_of [(''masterOnlyNested'', JStr ''v'')] ''localOnlyNested'' = None" by simp
  have q: "qpath [] ([''nested''] @ [''localOnlyNested'']) = ''nested.localOnlyNested''"
    by (simp add: qualifiedKey_def)
  show ?thesis
    using local_only_preserved[OF 1 2 3 4 5 6, of True] unfolding q by simp
qed

text \<open>
  The claim C6 as stated speaks of every qualified key of local that master lacks. It fails
  below a key that is not an object on both sides: with master \<open>{"a": 5}\<close>, local
  \<open>{"a": {"x": 1}}\<close> and force, \<open>a\<close> is overwritten by 5, so \<open>a.x\<close> is gone from the merged
  tree, and it is not in \<^verbatim>\<open>LocalOnly\<close>. With an empty master only \<open>a\<close> is reported, not \<open>a.x\<close>.
\<close>

theorem local_only_preserved_counterexample:
  "lookup_path (JObj [(''a'', JObj [(''x'', JNum 1)])]) [''a'', ''x''] = Some (JNum 1)
   \<and> lookup_path (JObj [(''a'', JNum 5)]) [''a'', ''x''] = None
   \<and> Merged (Merge [(''a'', JNum 5)] [(''a'', JObj [(''x'', JNum 1)])] True) = [(''a'', JNum 5)]
   \<and> lookup_path (JObj (Merged (Merge [(''a'', JNum 5)] [(''a'', JObj [(''x'', JNum 1)])] True)))
        [''a'', ''x''] = None
   \<and> LocalOnly (Merge [(''a'', JNum 5)] [(''a'', JObj [(''x'', JNum 1)])] True) = []
   \<and> LocalOnly (Merge [] [(''a'', JObj [(''x'', JNum 1)])] False) = [''a'']"
  by (simp add: merge_eval)

text \<open>
  C2 (purity). \<^verbatim>\<open>Merge\<close> always returns: the recursion is on the master tree, and the model above
  is a total function. But it does change one of its inputs. The copy in \<^verbatim>\<open>Merge\<close> is one level
  deep, so the nested maps of \<^verbatim>\<open>local\<close> are shared with \<^verbatim>\<open>result.Merged\<close>, and \<^verbatim>\<open>mergeInto\<close> adds
  master's keys to them. In the store below, address 0 is master \<open>{"a": {"x": 1}}\<close> and
  address 2 is local \<open>{"a": {}}\<close>; after the merge the tree read from local is
  \<open>{"a": {"x": 1}}\<close>. The merged tree, at the new address 4, is the one the value model
  computes.
\<close>

theorem merge_mutates_local:
  "Merge_h 3 [[(''a'', VMap 1)], [(''x'', VNum 1)], [(''a'', VMap 3)], []] 0 2 False
     = Some ([[(''a'', VMap 1)], [(''x'', VNum 1)], [(''a'', VMap 3)], [(''x'', VNum 1)],
              [(''a'', VMap 3)]],
             \<lparr>Merged_h = 4, Conflicts_h = [], Forced_h = [], Added_h = [''a.x''],
              Matching_h = [], LocalOnly_h = []\<rparr>)
   \<and> tree_of 3 [[(''a'', VMap 1)], [(''x'', VNum 1)], [(''a'', VMap 3)], []] (VMap 2)
       = Some (JObj [(''a'', JObj [])])
   \<and> tree_of 3 [[(''a'', VMap 1)], [(''x'', VNum 1)], [(''a'', VMap 3)], [(''x'', VNum 1)],
                  [(''a'', VMap 3)]] (VMap 2)
       = Some (JObj [(''a'', JObj [(''x'', JNum 1)])])
   \<and> tree_of 3 [[(''a'', VMap 1)], [(''x'', VNum 1)], [(''a'', VMap 3)], [(''x'', VNum 1)],
                  [(''a'', VMap 3)]] (VMap 4)
       = Some (JObj (Merged (Merge [(''a'', JObj [(''x'', JNum 1)])] [(''a'', JObj [])] False)))"
  by (simp add: Merge_h_def map_set_def local_sub_h_def qualifiedKey_def deep_equal_h_def merge_eval
      Let_def numeral_3_eq_3)

section \<open>Facts about the sync engine\<close>

lemma delete_update_fresh:
  "map_of dir tmp = None \<Longrightarrow> AList.delete tmp (AList.update tmp v dir) = dir"
  by (induction dir) (auto split: if_splits)

lemma is_dir_written:
  "map_of dir tmp = None \<Longrightarrow>
   is_dir (map_of (AList.update tmp (Regular c m) dir) name) = is_dir (map_of dir name)"
  by (auto simp: update_conv')

lemma update_update_same [simp]:
  "AList.update k v (AList.update k w al) = AList.update k v al"
  by (induction al) auto

text \<open>What \<^verbatim>\<open>copyFile\<close> leaves behind: the file under its final name, or the directory as it was.\<close>

lemma copyFile_result:
  "copyFile dir name content mode tmp fault =
     (if fault = None \<and> map_of dir tmp = None \<and> \<not> is_dir (map_of dir name)
      then (AList.update name (Regular content mode) dir, None)
      else (dir, snd (copyFile_trace dir name content mode tmp fault)))"
  by (cases fault rule: copy_fails.cases)
     (auto simp: copyFile_def copyFile_trace_def Let_def delete_update_fresh is_dir_written)

lemma copyFile_error:
  "\<not> (fault = None \<and> map_of dir tmp = None \<and> \<not> is_dir (map_of dir name)) \<Longrightarrow>
   snd (copyFile_trace dir name content mode tmp fault) \<noteq> None"
  by (cases fault rule: copy_fails.cases)
     (auto simp: copyFile_trace_def Let_def is_dir_written)

lemma copyFile_trace_ok:
  assumes "copyFile_trace dir name content mode tmp fault = (states, None)"
  shows "fault = None \<and> map_of dir tmp = None \<and> \<not> is_dir (map_of dir name)"
proof (rule ccontr)
  assume "\<not> ?thesis"
  from copyFile_error[OF this, of content mode] show False using assms by simp
qed

lemma copyFile_cases:
  assumes "copyFile dir name content mode tmp fault = (dir', err)"
  shows "(err = None \<and> dir' = AList.update name (Regular content mode) dir
            \<and> \<not> is_dir (map_of dir name))
       \<or> (err \<noteq> None \<and> dir' = dir)"
  using assms copyFile_error[of fault dir tmp name content mode]
  unfolding copyFile_result by (auto split: if_splits)

lemma copyFile_trace_shape:
  assumes "copyFile_trace dir name content mode tmp fault = (states, err)"
  shows "states \<noteq> [] \<and> hd states = dir
       \<and> (\<forall>s \<in> set (butlast states). s = dir \<or> (\<exists>x. s = AList.update tmp x dir))
       \<and> (err = None \<longrightarrow> last states = AList.update name (Regular content mode) dir)
       \<and> (err \<noteq> None \<longrightarrow> last states = dir)"
proof (cases "fault = Some OpenFails \<or> fault = Some StatFails \<or> fault = Some CreateTempFails
    \<or> map_of dir tmp \<noteq> None")
  case True
  then have "states = [dir]" "err \<noteq> None"
    using assms by (auto simp: copyFile_trace_def split: if_splits)
  then show ?thesis by auto
next
  case False
  then have fresh: "map_of dir tmp = None" by simp
  show ?thesis
  proof (cases "fault = Some ChmodFails")
    case True
    then have "states = [dir, AList.update tmp (Regular [] 384) dir, dir]" "err \<noteq> None"
      using assms fresh by (auto simp: copyFile_trace_def Let_def delete_update_fresh)
    then show ?thesis by auto
  next
    case nochmod: False
    define created where "created = AList.update tmp (Regular [] 384) dir"
    define written where
      "written = (\<lambda>n. AList.update tmp (Regular (take n content) mode) created)"
    define n where "n = bytes_written fault (length content)"
    define before_rename where "before_rename = [dir, created] @ map written [0..<Suc n]"
    define final where "final = (if err = None
        then AList.update name (Regular content mode) (AList.delete tmp (written n))
        else AList.delete tmp (written n))"
    have st: "states = before_rename @ [final]"
      using assms False nochmod
      by (auto simp: copyFile_trace_def Let_def created_def written_def n_def
          before_rename_def final_def split: if_splits)
    have w: "written k = AList.update tmp (Regular (take k content) mode) dir" for k
      by (simp add: written_def created_def)
    have del: "AList.delete tmp (written n) = dir"
      unfolding w using fresh by (rule delete_update_fresh)
    have "\<forall>s \<in> set before_rename. s = dir \<or> (\<exists>x. s = AList.update tmp x dir)"
      unfolding before_rename_def using w created_def by auto
    moreover have "hd states = dir" "states \<noteq> []"
      by (simp_all add: st before_rename_def)
    ultimately show ?thesis
      by (simp add: st final_def del)
  qed
qed

lemma fs_induct [case_names Nil Cons]:
  assumes "P []"
    and "\<And>name entry rest. (\<And>es. entry = Directory es \<Longrightarrow> P es) \<Longrightarrow> P rest
           \<Longrightarrow> P ((name, entry) # rest)"
  shows "P (entries :: dirents)"
proof (induction entries rule: measure_induct_rule [where f = "\<lambda>s. size (Directory s)"])
  case (less entries)
  show ?case
  proof (cases entries)
    case Nil
    then show ?thesis using assms(1) by simp
  next
    case (Cons a rest)
    obtain name entry where a: "a = (name, entry)" by (cases a)
    have 1: "\<And>es. entry = Directory es \<Longrightarrow> P es"
      using less Cons a by simp
    have 2: "P rest" using less Cons a by simp
    show ?thesis using assms(2)[OF 1 2] Cons a by simp
  qed
qed

lemma fs_lookup_None [simp]: "fs_lookup None p = None"
  by (cases p) auto

lemma fs_lookup_below:
  "fs_lookup c q = Some n \<Longrightarrow> q \<noteq> [] \<Longrightarrow> \<exists>ds. c = Some (Directory ds)"
  by (cases q; cases c) (auto split: fsnode.splits)

declare copy_entries.simps(2) [simp del] copyDir.simps [simp del]

text \<open>Nothing below the destination that the source has no counterpart for is touched.\<close>

lemma copy_entries_keeps:
  "distinct (map fst entries) \<Longrightarrow> (\<forall>(k, n) \<in> set entries. wf_fs n) \<Longrightarrow>
   copy_entries e sp dp entries dir = (dir', err) \<Longrightarrow>
   fs_lookup (Some (Directory dir)) p = Some n \<Longrightarrow>
   fs_lookup (Some (Directory entries)) p = None \<Longrightarrow>
   fs_lookup (Some (Directory dir')) p = Some n"
proof (induction entries arbitrary: e sp dp dir dir' err p n rule: fs_induct)
  case Nil
  then show ?case by simp
next
  case (Cons name entry rest)
  obtain k q where p: "p = k # q" using Cons.prems(5) by (cases p) auto
  have dr: "distinct (map fst rest)" and wr: "\<forall>(k, n) \<in> set rest. wf_fs n"
    and nr: "map_of rest name = None" and we: "wf_fs entry"
    using Cons.prems(1,2) by (auto simp: map_of_eq_None_iff)
  text \<open>the same statement for the recursive call of copyDir\<close>
  have dirIH: "fs_lookup child' q' = Some n'"
    if h1: "entry = Directory es" and h2: "copyDir e' sp' dp' es child = (child', err')"
      and h3: "fs_lookup child q' = Some n'" and h4: "fs_lookup (Some (Directory es)) q' = None"
    for es e' sp' dp' child child' err' q' n'
  proof -
    have wes: "distinct (map fst es)" "\<forall>(k, n) \<in> set es. wf_fs n"
      using we h1 by auto
    have q': "q' \<noteq> []" using h4 by auto
    then obtain ds where ds: "child = Some (Directory ds)"
      using fs_lookup_below[OF h3] by blast
    show ?thesis
    proof (cases "ReadDirFails e' sp'")
      case True
      then show ?thesis using h2 h3 by (simp add: copyDir.simps)
    next
      case False
      then obtain dir2 where c: "copy_entries e' sp' dp' es ds = (dir2, err')"
        "child' = Some (Directory dir2)"
        using h2 ds by (auto simp: copyDir.simps split: prod.splits)
      from Cons.IH(1)[OF h1 wes c(1)] h3 h4 ds c(2)
      show ?thesis by simp
    qed
  qed
  show ?case
  proof (cases "k = name")
    case False
    have rest_none: "fs_lookup (Some (Directory rest)) p = None"
      using Cons.prems(5) False by (simp add: p)
    have step: "fs_lookup (Some (Directory d1)) p = Some n"
      if "map_of d1 k = map_of dir k" for d1
      using Cons.prems(4) that by (simp add: p)
    show ?thesis
    proof (cases entry)
      case (Regular content mode)
      obtain d1 e1 where cf: "copyFile dir name content mode (TempName e (dp @ [name]))
          (CopyFault e (dp @ [name])) = (d1, e1)" by force
      have d1: "map_of d1 k = map_of dir k"
        using copyFile_cases[OF cf] False by (auto simp: update_conv')
      show ?thesis
      proof (cases e1)
        case None
        then have "copy_entries e sp dp rest d1 = (dir', err)"
          using Cons.prems(3) cf Regular by (simp add: copy_entries.simps)
        from Cons.IH(2)[OF dr wr this step[OF d1] rest_none] show ?thesis .
      next
        case (Some x)
        then have "dir' = d1" using Cons.prems(3) cf Regular by (simp add: copy_entries.simps)
        then show ?thesis using step[OF d1] by simp
      qed
    next
      case (Directory es)
      obtain child' e1 where cd: "copyDir e (sp @ [name]) (dp @ [name]) es (map_of dir name) = (child', e1)"
        by force
      have d1: "map_of (put_child name child' dir) k = map_of dir k"
        using False by (cases child') (auto simp: update_conv')
      show ?thesis
      proof (cases e1)
        case None
        then have "copy_entries e sp dp rest (put_child name child' dir) = (dir', err)"
          using Cons.prems(3) cd Directory by (simp add: copy_entries.simps)
        from Cons.IH(2)[OF dr wr this step[OF d1] rest_none] show ?thesis .
      next
        case (Some x)
        then have "dir' = put_child name child' dir"
          using Cons.prems(3) cd Directory by (simp add: copy_entries.simps)
        then show ?thesis using step[OF d1] by simp
      qed
    next
      case Special
      then have "copy_entries e sp dp rest dir = (dir', err)"
        using Cons.prems(3) by (simp add: copy_entries.simps)
      from Cons.IH(2)[OF dr wr this Cons.prems(4) rest_none] show ?thesis .
    qed
  next
    case True
    have below: "fs_lookup (map_of dir name) q = Some n" and src: "fs_lookup (Some entry) q = None"
      using Cons.prems(4,5) True by (simp_all add: p)
    have q: "q \<noteq> []" using src by auto
    then obtain ds where ds: "map_of dir name = Some (Directory ds)"
      using fs_lookup_below[OF below] by blast
    have rest_none: "fs_lookup (Some (Directory rest)) p = None"
      using nr True by (simp add: p)
    show ?thesis
    proof (cases entry)
      case (Regular content mode)
      obtain d1 e1 where cf: "copyFile dir name content mode (TempName e (dp @ [name]))
          (CopyFault e (dp @ [name])) = (d1, e1)" by force
      have "e1 \<noteq> None \<and> d1 = dir"
        using copyFile_cases[OF cf] by (auto simp: ds)
      then have "dir' = dir" using Cons.prems(3) cf Regular by (auto simp: copy_entries.simps)
      then show ?thesis using Cons.prems(4) by simp
    next
      case (Directory es)
      obtain child' e1 where cd: "copyDir e (sp @ [name]) (dp @ [name]) es (map_of dir name) = (child', e1)"
        by force
      have es_none: "fs_lookup (Some (Directory es)) q = None" using src Directory by simp
      have c': "fs_lookup child' q = Some n"
        using dirIH[OF Directory cd below es_none] .
      then obtain ds' where "child' = Some (Directory ds')"
        using fs_lookup_below q by blast
      then have d1: "fs_lookup (Some (Directory (put_child name child' dir))) p = Some n"
        using c' True by (simp add: p update_conv')
      show ?thesis
      proof (cases e1)
        case None
        then have "copy_entries e sp dp rest (put_child name child' dir) = (dir', err)"
          using Cons.prems(3) cd Directory by (simp add: copy_entries.simps)
        from Cons.IH(2)[OF dr wr this d1 rest_none] show ?thesis .
      next
        case (Some x)
        then have "dir' = put_child name child' dir"
          using Cons.prems(3) cd Directory by (simp add: copy_entries.simps)
        then show ?thesis using d1 by simp
      qed
    next
      case Special
      then have "copy_entries e sp dp rest dir = (dir', err)"
        using Cons.prems(3) by (simp add: copy_entries.simps)
      from Cons.IH(2)[OF dr wr this Cons.prems(4) rest_none] show ?thesis .
    qed
  qed
qed

lemma copyDir_keeps:
  assumes "wf_fs (Directory es)" "copyDir e sp dp es child = (child', err)"
    "fs_lookup child q = Some n" "fs_lookup (Some (Directory es)) q = None"
  shows "fs_lookup child' q = Some n"
proof -
  have wes: "distinct (map fst es)" "\<forall>(k, n) \<in> set es. wf_fs n"
    using assms(1) by auto
  have q': "q \<noteq> []" using assms(4) by auto
  then obtain ds where ds: "child = Some (Directory ds)"
    using fs_lookup_below[OF assms(3)] by blast
  show ?thesis
  proof (cases "ReadDirFails e sp")
    case True
    then show ?thesis using assms(2,3) by (simp add: copyDir.simps)
  next
    case False
    then obtain dir2 where c: "copy_entries e sp dp es ds = (dir2, err)"
      "child' = Some (Directory dir2)"
      using assms(2) ds by (auto simp: copyDir.simps split: prod.splits)
    from copy_entries_keeps[OF wes c(1)] assms(3,4) ds c(2)
    show ?thesis by simp
  qed
qed

lemma sync_loop_Cons:
  "sync_loop e force ((name, entry) # rest) dir res =
     (case sync_step e force name entry dir res of
        (dir1, res1, None) \<Rightarrow> sync_loop e force rest dir1 res1
      | (dir1, res1, Some err) \<Rightarrow> (dir1, res1, Some err))"
  by (auto simp: sync_step_def Let_def split: fsnode.splits prod.splits option.splits)

declare sync_loop.simps(2) [simp del]

lemma put_child_other: "k \<noteq> name \<Longrightarrow> map_of (put_child name c dir) k = map_of dir k"
  by (cases c) (auto simp: update_conv')

text \<open>One iteration touches only its own name.\<close>

lemma sync_step_frame:
  assumes "sync_step e force name entry dir res = (dir1, res1, err)" "k \<noteq> name"
  shows "map_of dir1 k = map_of dir k
       \<and> (k \<in> set (Copied res1) \<longleftrightarrow> k \<in> set (Copied res))
       \<and> (k \<in> set (Skipped res1) \<longleftrightarrow> k \<in> set (Skipped res))
       \<and> (k \<in> set (Forced_s res1) \<longleftrightarrow> k \<in> set (Forced_s res))"
proof (cases entry)
  case (Regular content mode)
  obtain d c where cf: "copyFile dir name content mode (TempName e [name]) (CopyFault e [name]) = (d, c)"
    by force
  have "map_of d k = map_of dir k"
    using copyFile_cases[OF cf] assms(2) by (auto simp: update_conv')
  then show ?thesis
    using assms cf Regular
    by (auto simp: sync_step_def Let_def split: if_splits option.splits)
next
  case (Directory es)
  then show ?thesis
    using assms
    by (auto simp: sync_step_def Let_def put_child_other split: if_splits option.splits prod.splits)
next
  case Special
  then show ?thesis
    using assms by (auto simp: sync_step_def Let_def split: if_splits)
qed

lemma sync_loop_frame:
  "sync_loop e force entries dir res = (dir', res', err) \<Longrightarrow> k \<notin> fst ` set entries \<Longrightarrow>
   map_of dir' k = map_of dir k
   \<and> (k \<in> set (Copied res') \<longleftrightarrow> k \<in> set (Copied res))
   \<and> (k \<in> set (Skipped res') \<longleftrightarrow> k \<in> set (Skipped res))
   \<and> (k \<in> set (Forced_s res') \<longleftrightarrow> k \<in> set (Forced_s res))"
proof (induction entries arbitrary: dir res)
  case Nil
  then show ?case by simp
next
  case (Cons a entries)
  obtain name entry where a: "a = (name, entry)" by (cases a)
  obtain dir1 res1 e1 where st: "sync_step e force name entry dir res = (dir1, res1, e1)"
    by (metis prod_cases3)
  have kn: "k \<noteq> name" and kr: "k \<notin> fst ` set entries" using Cons.prems(2) a by auto
  note fr = sync_step_frame[OF st kn]
  show ?case
  proof (cases e1)
    case None
    then have "sync_loop e force entries dir1 res1 = (dir', res', err)"
      using Cons.prems(1) st a by (simp add: sync_loop_Cons)
    from Cons.IH[OF this kr] fr show ?thesis by simp
  next
    case (Some x)
    then have "dir' = dir1" "res' = res1"
      using Cons.prems(1) st a by (simp_all add: sync_loop_Cons)
    then show ?thesis using fr by simp
  qed
qed

text \<open>The iteration for a name that the destination already has.\<close>

lemma sync_step_existing_skip:
  assumes "sync_step e False name entry dir res = (dir1, res1, None)" "map_of dir name = Some old"
  shows "dir1 = dir \<and> res1 = res\<lparr>Skipped := Skipped res @ [name]\<rparr>"
  using assms by (auto simp: sync_step_def split: if_splits)

lemma sync_step_existing_force:
  assumes "sync_step e True name entry dir res = (dir1, res1, None)" "map_of dir name = Some old"
    "entry \<noteq> Special"
  shows "res1 = res\<lparr>Forced_s := Forced_s res @ [name]\<rparr>
       \<and> (\<forall>c m. entry = Regular c m \<longrightarrow> map_of dir1 name = Some (Regular c m))"
proof (cases entry)
  case (Regular content mode)
  obtain d c where cf: "copyFile dir name content mode (TempName e [name]) (CopyFault e [name]) = (d, c)"
    by force
  have "c = None \<longrightarrow> map_of d name = Some (Regular content mode)"
    using copyFile_cases[OF cf] by (auto simp: update_conv')
  then show ?thesis
    using assms cf Regular
    by (auto simp: sync_step_def Let_def split: if_splits option.splits)
next
  case (Directory es)
  then show ?thesis
    using assms
    by (auto simp: sync_step_def Let_def split: if_splits option.splits prod.splits)
next
  case Special
  then show ?thesis using assms by simp
qed

lemma sync_loop_existing_skip:
  "distinct (map fst entries) \<Longrightarrow> map_of entries name = Some entry \<Longrightarrow>
   map_of dir name = Some old \<Longrightarrow>
   sync_loop e False entries dir res = (dir', res', None) \<Longrightarrow>
   map_of dir' name = Some old \<and> name \<in> set (Skipped res')
   \<and> (name \<in> set (Copied res') \<longleftrightarrow> name \<in> set (Copied res))
   \<and> (name \<in> set (Forced_s res') \<longleftrightarrow> name \<in> set (Forced_s res))"
proof (induction entries arbitrary: dir res)
  case Nil
  then show ?case by simp
next
  case (Cons a entries)
  obtain n0 e0 where a: "a = (n0, e0)" by (cases a)
  obtain dir1 res1 e1 where st: "sync_step e False n0 e0 dir res = (dir1, res1, e1)"
    by (metis prod_cases3)
  have e1: "e1 = None" and loop: "sync_loop e False entries dir1 res1 = (dir', res', None)"
    using Cons.prems(4) st a by (auto simp: sync_loop_Cons split: option.splits)
  have d: "distinct (map fst entries)" and nr: "n0 \<notin> fst ` set entries"
    using Cons.prems(1) a by auto
  show ?case
  proof (cases "n0 = name")
    case True
    from sync_step_existing_skip[OF st[unfolded e1 True] Cons.prems(3)]
    have s: "dir1 = dir" "res1 = res\<lparr>Skipped := Skipped res @ [name]\<rparr>" by simp_all
    from sync_loop_frame[OF loop] nr True
    show ?thesis using s Cons.prems(3) by simp
  next
    case False
    then have m: "map_of entries name = Some entry" using Cons.prems(2) a by simp
    note fr = sync_step_frame[OF st, of name]
    have "map_of dir1 name = Some old" using fr False Cons.prems(3) by simp
    from Cons.IH[OF d m this loop] fr False show ?thesis by simp
  qed
qed

lemma sync_loop_existing_force:
  "distinct (map fst entries) \<Longrightarrow> map_of entries name = Some entry \<Longrightarrow> entry \<noteq> Special \<Longrightarrow>
   map_of dir name = Some old \<Longrightarrow>
   sync_loop e True entries dir res = (dir', res', None) \<Longrightarrow>
   name \<in> set (Forced_s res')
   \<and> (name \<in> set (Copied res') \<longleftrightarrow> name \<in> set (Copied res))
   \<and> (name \<in> set (Skipped res') \<longleftrightarrow> name \<in> set (Skipped res))
   \<and> (\<forall>c m. entry = Regular c m \<longrightarrow> map_of dir' name = Some (Regular c m))"
proof (induction entries arbitrary: dir res old)
  case Nil
  then show ?case by simp
next
  case (Cons a entries)
  obtain n0 e0 where a: "a = (n0, e0)" by (cases a)
  obtain dir1 res1 e1 where st: "sync_step e True n0 e0 dir res = (dir1, res1, e1)"
    by (metis prod_cases3)
  have e1: "e1 = None" and loop: "sync_loop e True entries dir1 res1 = (dir', res', None)"
    using Cons.prems(5) st a by (auto simp: sync_loop_Cons split: option.splits)
  have d: "distinct (map fst entries)" and nr: "n0 \<notin> fst ` set entries"
    using Cons.prems(1) a by auto
  show ?case
  proof (cases "n0 = name")
    case True
    then have "e0 = entry" using Cons.prems(2) a by simp
    from sync_step_existing_force[OF st[unfolded e1 True this] Cons.prems(4,3)]
    have s: "res1 = res\<lparr>Forced_s := Forced_s res @ [name]\<rparr>"
      "\<forall>c m. entry = Regular c m \<longrightarrow> map_of dir1 name = Some (Regular c m)" by simp_all
    from sync_loop_frame[OF loop] nr True
    show ?thesis using s by simp
  next
    case False
    then have m: "map_of entries name = Some entry" using Cons.prems(2) a by simp
    note fr = sync_step_frame[OF st, of name]
    have "map_of dir1 name = Some old" using fr False Cons.prems(4) by simp
    from Cons.IH[OF d m Cons.prems(3) this loop] fr False show ?thesis by simp
  qed
qed

lemma sync_step_keeps:
  assumes "wf_fs entry" "sync_step e force name entry dir res = (dir1, res1, err)"
    "fs_lookup (Some (Directory dir)) (k # q) = Some n"
    "k = name \<longrightarrow> fs_lookup (Some entry) q = None"
  shows "fs_lookup (Some (Directory dir1)) (k # q) = Some n"
proof (cases "k = name")
  case False
  then show ?thesis
    using sync_step_frame[OF assms(2), of k] assms(3) by simp
next
  case True
  then have src: "fs_lookup (Some entry) q = None" using assms(4) by simp
  then have q: "q \<noteq> []" by auto
  have below: "fs_lookup (map_of dir name) q = Some n" using assms(3) True by simp
  then obtain ds where ds: "map_of dir name = Some (Directory ds)"
    using fs_lookup_below q by blast
  show ?thesis
  proof (cases entry)
    case (Regular content mode)
    obtain d c where cf: "copyFile dir name content mode (TempName e [name]) (CopyFault e [name]) = (d, c)"
      by force
    have "c \<noteq> None \<and> d = dir" using copyFile_cases[OF cf] by (auto simp: ds)
    then have "dir1 = dir"
      using assms(2) cf Regular by (auto simp: sync_step_def Let_def split: if_splits)
    then show ?thesis using assms(3) by simp
  next
    case (Directory es)
    obtain child' e1 where cd: "copyDir e [name] [name] es (map_of dir name) = (child', e1)"
      by force
    have w: "wf_fs (Directory es)" using assms(1) Directory by simp
    have c': "fs_lookup child' q = Some n"
      using copyDir_keeps[OF w cd below] src Directory by simp
    then obtain ds' where "child' = Some (Directory ds')"
      using fs_lookup_below q by blast
    then have "fs_lookup (Some (Directory (put_child name child' dir))) (k # q) = Some n"
      using c' True by (simp add: update_conv')
    moreover have "dir1 = dir \<or> dir1 = put_child name child' dir"
      using assms(2) cd Directory
      by (auto simp: sync_step_def Let_def split: if_splits option.splits)
    ultimately show ?thesis using assms(3) by auto
  next
    case Special
    then have "dir1 = dir"
      using assms(2) by (auto simp: sync_step_def Let_def split: if_splits)
    then show ?thesis using assms(3) by simp
  qed
qed

lemma sync_loop_keeps:
  "distinct (map fst entries) \<Longrightarrow> (\<forall>(k, n) \<in> set entries. wf_fs n) \<Longrightarrow>
   sync_loop e force entries dir res = (dir', res', err) \<Longrightarrow>
   fs_lookup (Some (Directory dir)) p = Some n \<Longrightarrow>
   fs_lookup (Some (Directory entries)) p = None \<Longrightarrow>
   fs_lookup (Some (Directory dir')) p = Some n"
proof (induction entries arbitrary: dir res)
  case Nil
  then show ?case by simp
next
  case (Cons a entries)
  obtain name entry where a: "a = (name, entry)" by (cases a)
  obtain k q where p: "p = k # q" using Cons.prems(5) by (cases p) auto
  obtain dir1 res1 e1 where st: "sync_step e force name entry dir res = (dir1, res1, e1)"
    by (metis prod_cases3)
  have d: "distinct (map fst entries)" and w: "\<forall>(k, n) \<in> set entries. wf_fs n"
    and we: "wf_fs entry" and nr: "map_of entries name = None"
    using Cons.prems(1,2) a by (auto simp: map_of_eq_None_iff)
  have src: "k = name \<longrightarrow> fs_lookup (Some entry) q = None"
    using Cons.prems(5) a p by (auto split: if_splits)
  have k1: "fs_lookup (Some (Directory dir1)) p = Some n"
    using sync_step_keeps[OF we st _ src] Cons.prems(4) p by simp
  have rest_none: "fs_lookup (Some (Directory entries)) p = None"
    using Cons.prems(5) a p nr by (cases "k = name") simp_all
  show ?case
  proof (cases e1)
    case None
    then have "sync_loop e force entries dir1 res1 = (dir', res', err)"
      using Cons.prems(3) st a by (simp add: sync_loop_Cons)
    from Cons.IH[OF d w this k1 rest_none] show ?thesis .
  next
    case (Some x)
    then have "dir' = dir1"
      using Cons.prems(3) st a by (simp add: sync_loop_Cons)
    then show ?thesis using k1 by simp
  qed
qed

lemma fs_lookup_regular:
  "fs_lookup (Some (Regular c' m')) q = Some (Regular c m) \<Longrightarrow> q = [] \<and> c' = c \<and> m' = m"
  by (cases q) auto

lemma fs_lookup_special: "fs_lookup (Some Special) q \<noteq> Some (Regular c m)"
  by (cases q) auto

lemma copy_entries_frame:
  "copy_entries e sp dp entries dir = (dir', err) \<Longrightarrow> k \<notin> fst ` set entries \<Longrightarrow>
   map_of dir' k = map_of dir k"
proof (induction entries arbitrary: dir)
  case Nil
  then show ?case by simp
next
  case (Cons a entries)
  obtain name entry where a: "a = (name, entry)" by (cases a)
  have kn: "k \<noteq> name" and kr: "k \<notin> fst ` set entries" using Cons.prems(2) a by auto
  show ?case
  proof (cases entry)
    case (Regular content mode)
    obtain d1 e1 where cf: "copyFile dir name content mode (TempName e (dp @ [name]))
        (CopyFault e (dp @ [name])) = (d1, e1)" by force
    have d1: "map_of d1 k = map_of dir k"
      using copyFile_cases[OF cf] kn by (auto simp: update_conv')
    show ?thesis
    proof (cases e1)
      case None
      then have "copy_entries e sp dp entries d1 = (dir', err)"
        using Cons.prems(1) cf Regular a by (simp add: copy_entries.simps)
      from Cons.IH[OF this kr] d1 show ?thesis by simp
    next
      case (Some x)
      then have "dir' = d1" using Cons.prems(1) cf Regular a by (simp add: copy_entries.simps)
      then show ?thesis using d1 by simp
    qed
  next
    case (Directory es)
    obtain child' e1 where cd: "copyDir e (sp @ [name]) (dp @ [name]) es (map_of dir name) = (child', e1)"
      by force
    have d1: "map_of (put_child name child' dir) k = map_of dir k"
      using kn by (rule put_child_other)
    show ?thesis
    proof (cases e1)
      case None
      then have "copy_entries e sp dp entries (put_child name child' dir) = (dir', err)"
        using Cons.prems(1) cd Directory a by (simp add: copy_entries.simps)
      from Cons.IH[OF this kr] d1 show ?thesis by simp
    next
      case (Some x)
      then have "dir' = put_child name child' dir"
        using Cons.prems(1) cd Directory a by (simp add: copy_entries.simps)
      then show ?thesis using d1 by simp
    qed
  next
    case Special
    then have "copy_entries e sp dp entries dir = (dir', err)"
      using Cons.prems(1) a by (simp add: copy_entries.simps)
    from Cons.IH[OF this kr] show ?thesis .
  qed
qed

lemma copyDir_ok_dir:
  "copyDir e sp dp es child = (child', None) \<Longrightarrow>
   \<exists>dir dir'. copy_entries e sp dp es dir = (dir', None) \<and> child' = Some (Directory dir')"
  by (auto simp: copyDir.simps split: if_splits option.splits fsnode.splits prod.splits)

text \<open>A copy that returns without error has put every regular file of the source in place.\<close>

lemma copy_entries_copies:
  "distinct (map fst entries) \<Longrightarrow> (\<forall>(k, n) \<in> set entries. wf_fs n) \<Longrightarrow>
   copy_entries e sp dp entries dir = (dir', None) \<Longrightarrow>
   fs_lookup (Some (Directory entries)) (k # q) = Some (Regular c m) \<Longrightarrow>
   fs_lookup (Some (Directory dir')) (k # q) = Some (Regular c m)"
proof (induction entries arbitrary: e sp dp dir dir' k q rule: fs_induct)
  case Nil
  then show ?case by simp
next
  case (Cons name entry rest)
  have dr: "distinct (map fst rest)" and wr: "\<forall>(k, n) \<in> set rest. wf_fs n"
    and nr: "name \<notin> fst ` set rest" and we: "wf_fs entry"
    using Cons.prems(1,2) by auto
  show ?case
  proof (cases "k = name")
    case True
    have src: "fs_lookup (Some entry) q = Some (Regular c m)"
      using Cons.prems(4) True by simp
    have "\<exists>d1. copy_entries e sp dp rest d1 = (dir', None)
        \<and> fs_lookup (map_of d1 name) q = Some (Regular c m)"
    proof (cases entry)
      case (Regular content mode)
      then have eq: "q = []" "content = c" "mode = m" using src fs_lookup_regular by blast+
      obtain d1 e1 where cf: "copyFile dir name content mode (TempName e (dp @ [name]))
          (CopyFault e (dp @ [name])) = (d1, e1)" by force
      have e1: "e1 = None"
        using Cons.prems(3) cf Regular by (auto simp: copy_entries.simps split: option.splits)
      then have "d1 = AList.update name (Regular content mode) dir"
        using copyFile_cases[OF cf] by auto
      moreover have "copy_entries e sp dp rest d1 = (dir', None)"
        using Cons.prems(3) cf Regular e1 by (simp add: copy_entries.simps)
      ultimately show ?thesis using eq by (auto simp: update_conv')
    next
      case (Directory es)
      obtain child' e1 where cd: "copyDir e (sp @ [name]) (dp @ [name]) es (map_of dir name) = (child', e1)"
        by force
      have e1: "e1 = None"
        using Cons.prems(3) cd Directory by (auto simp: copy_entries.simps split: option.splits)
      obtain q0 qs where q: "q = q0 # qs" using src Directory by (cases q) auto
      from copyDir_ok_dir[OF cd[unfolded e1]] obtain d0 d0' where
        c: "copy_entries e (sp @ [name]) (dp @ [name]) es d0 = (d0', None)"
           "child' = Some (Directory d0')" by blast
      have wes: "distinct (map fst es)" "\<forall>(k, n) \<in> set es. wf_fs n"
        using we Directory by auto
      have "fs_lookup (Some (Directory d0')) (q0 # qs) = Some (Regular c m)"
        using Cons.IH(1)[OF Directory wes c(1)] src Directory q by simp
      then have "fs_lookup (map_of (put_child name child' dir) name) q = Some (Regular c m)"
        using c(2) q by (simp add: update_conv')
      moreover have "copy_entries e sp dp rest (put_child name child' dir) = (dir', None)"
        using Cons.prems(3) cd Directory e1 by (simp add: copy_entries.simps)
      ultimately show ?thesis by blast
    next
      case Special
      then show ?thesis using src fs_lookup_special by blast
    qed
    then obtain d1 where d1: "copy_entries e sp dp rest d1 = (dir', None)"
      "fs_lookup (map_of d1 name) q = Some (Regular c m)" by blast
    from copy_entries_frame[OF d1(1) nr] d1(2) True show ?thesis by simp
  next
    case False
    have src: "fs_lookup (Some (Directory rest)) (k # q) = Some (Regular c m)"
      using Cons.prems(4) False by simp
    have "\<exists>d1. copy_entries e sp dp rest d1 = (dir', None)"
      using Cons.prems(3)
      by (cases entry) (auto simp: copy_entries.simps split: option.splits prod.splits)
    then obtain d1 where "copy_entries e sp dp rest d1 = (dir', None)" by blast
    from Cons.IH(2)[OF dr wr this src] show ?thesis .
  qed
qed

lemma copyDir_copies:
  assumes "wf_fs (Directory es)" "copyDir e sp dp es child = (child', None)"
    "fs_lookup (Some (Directory es)) q = Some (Regular c m)"
  shows "fs_lookup child' q = Some (Regular c m)"
proof -
  obtain q0 qs where q: "q = q0 # qs" using assms(3) by (cases q) auto
  from copyDir_ok_dir[OF assms(2)] obtain d0 d0' where
    c: "copy_entries e sp dp es d0 = (d0', None)" "child' = Some (Directory d0')" by blast
  have wes: "distinct (map fst es)" "\<forall>(k, n) \<in> set es. wf_fs n"
    using assms(1) by auto
  from copy_entries_copies[OF wes c(1)] assms(3) q c(2) show ?thesis by simp
qed

lemma sync_step_existing_force_content:
  assumes "sync_step e True name entry dir res = (dir1, res1, None)" "map_of dir name = Some old"
    "wf_fs entry" "fs_lookup (Some entry) q = Some (Regular c m)"
  shows "fs_lookup (map_of dir1 name) q = Some (Regular c m)"
proof (cases entry)
  case (Regular content mode)
  then have eq: "q = []" "content = c" "mode = m" using assms(4) fs_lookup_regular by blast+
  obtain d x where cf: "copyFile dir name content mode (TempName e [name]) (CopyFault e [name]) = (d, x)"
    by force
  have "x = None \<longrightarrow> map_of d name = Some (Regular content mode)"
    using copyFile_cases[OF cf] by (auto simp: update_conv')
  then show ?thesis
    using assms(1,2) cf Regular eq
    by (auto simp: sync_step_def Let_def split: if_splits option.splits)
next
  case (Directory es)
  obtain child' e1 where cd: "copyDir e [name] [name] es (map_of dir name) = (child', e1)"
    by force
  have e1: "e1 = None" and d1: "dir1 = put_child name child' dir"
    using assms(1,2) cd Directory
    by (auto simp: sync_step_def Let_def split: if_splits option.splits)
  have w: "wf_fs (Directory es)" using assms(3) Directory by simp
  have c': "fs_lookup child' q = Some (Regular c m)"
    using copyDir_copies[OF w cd[unfolded e1]] assms(4) Directory by simp
  obtain d0 where "child' = Some d0" using copyDir_ok_dir[OF cd[unfolded e1]] by blast
  then show ?thesis using c' d1 by (simp add: update_conv')
next
  case Special
  then show ?thesis using assms(4) fs_lookup_special by blast
qed

lemma sync_loop_existing_force_content:
  "distinct (map fst entries) \<Longrightarrow> (\<forall>(k, n) \<in> set entries. wf_fs n) \<Longrightarrow>
   map_of entries name = Some entry \<Longrightarrow>
   map_of dir name = Some old \<Longrightarrow>
   sync_loop e True entries dir res = (dir', res', None) \<Longrightarrow>
   fs_lookup (Some entry) q = Some (Regular c m) \<Longrightarrow>
   fs_lookup (map_of dir' name) q = Some (Regular c m)"
proof (induction entries arbitrary: dir res old)
  case Nil
  then show ?case by simp
next
  case (Cons a entries)
  obtain n0 e0 where a: "a = (n0, e0)" by (cases a)
  obtain dir1 res1 e1 where st: "sync_step e True n0 e0 dir res = (dir1, res1, e1)"
    by (metis prod_cases3)
  have e1: "e1 = None" and loop: "sync_loop e True entries dir1 res1 = (dir', res', None)"
    using Cons.prems(5) st a by (auto simp: sync_loop_Cons split: option.splits)
  have d: "distinct (map fst entries)" and nr: "n0 \<notin> fst ` set entries"
    and w: "\<forall>(k, n) \<in> set entries. wf_fs n" and w0: "wf_fs e0"
    using Cons.prems(1,2) a by auto
  show ?case
  proof (cases "n0 = name")
    case True
    then have e0: "e0 = entry" using Cons.prems(3) a by simp
    from sync_step_existing_force_content[OF st[unfolded e1 True e0] Cons.prems(4) w0[unfolded e0]
        Cons.prems(6)]
    have "fs_lookup (map_of dir1 name) q = Some (Regular c m)" .
    then show ?thesis using sync_loop_frame[OF loop, of name] nr True by simp
  next
    case False
    then have m: "map_of entries name = Some entry" using Cons.prems(3) a by simp
    have "map_of dir1 name = Some old"
      using sync_step_frame[OF st, of name] False Cons.prems(4) by simp
    from Cons.IH[OF d w m this loop Cons.prems(6)] show ?thesis .
  qed
qed

lemmas sync_eval =
  Sync_def sync_loop.simps copy_entries.simps copyDir.simps copyFile_def copyFile_trace_def
  empty_sync_result_def quiet_def Let_def

lemma Sync_dirs:
  "Sync e (Some (Directory se)) (Some (Directory de)) force = (dst', res, err) \<Longrightarrow>
   ReadDirFails e [] \<and> dst' = Some (Directory de) \<and> err \<noteq> None
   \<or> (\<exists>dir' res'. sync_loop e force se de empty_sync_result = (dir', res', err)
        \<and> dst' = Some (Directory dir')
        \<and> set (Copied res) = set (Copied res') \<and> set (Skipped res) = set (Skipped res')
        \<and> set (Forced_s res) = set (Forced_s res'))"
  by (auto simp: Sync_def split: if_splits prod.splits option.splits)

section \<open>Claims about the sync engine\<close>



text \<open>
  C8 (missing source). When the source directory does not exist, \<^verbatim>\<open>Sync\<close> returns the empty
  result and no error and leaves the destination alone, whatever the destination, the force
  flag and the environment.
\<close>

theorem sync_missing_source:
  "Sync e None dst force = (dst, \<lparr>Copied = [], Skipped = [], Forced_s = []\<rparr>, None)"
  by (simp add: Sync_def empty_sync_result_def)

text \<open>
  C9 (atomic replacement). \<^verbatim>\<open>copyFile\<close> is the only place where the engine writes a file. With a
  temporary name different from the final name, in every state before the last the entry
  under the final name is what it was before the call, whatever fails and wherever; if the
  call succeeds the last step is the rename of the temporary file, which then holds the whole
  content and the mode, onto the final name; if the call fails the directory is back to what
  it was.
\<close>

theorem copy_atomic:
  assumes "tmp \<noteq> name"
    and "copyFile_trace dir name content mode tmp fault = (states, err)"
  shows "states \<noteq> [] \<and> hd states = dir
       \<and> (\<forall>i < length states - 1. map_of (states ! i) name = map_of dir name)
       \<and> (err = None \<longrightarrow> map_of (last states) name = Some (Regular content mode)
            \<and> map_of (states ! (length states - 2)) tmp = Some (Regular content mode))
       \<and> (err \<noteq> None \<longrightarrow> last states = dir)"
proof -
  note shape = copyFile_trace_shape[OF assms(2)]
  have full: "map_of (states ! (length states - 2)) tmp = Some (Regular content mode)"
    if "err = None"
  proof -
    have "fault = None" "map_of dir tmp = None"
      using copyFile_trace_ok[of dir name content mode tmp fault states] assms(2) that by auto
    then have "\<exists>z. states = [dir, AList.update tmp (Regular [] 384) dir]
        @ map (\<lambda>n. AList.update tmp (Regular (take n content) mode)
                 (AList.update tmp (Regular [] 384) dir)) [0..<length content]
        @ [AList.update tmp (Regular content mode) (AList.update tmp (Regular [] 384) dir), z]"
      using assms(2) by (auto simp: copyFile_trace_def Let_def split: if_splits)
    then obtain xs y z where "states = xs @ [AList.update tmp (Regular content mode) y, z]"
      by (metis append.assoc)
    then show ?thesis by (simp add: nth_append update_conv')
  qed
  have "map_of (states ! i) name = map_of dir name" if "i < length states - 1" for i
  proof -
    have "states ! i \<in> set (butlast states)"
      using that by (metis length_butlast nth_butlast nth_mem)
    then have "states ! i = dir \<or> (\<exists>x. states ! i = AList.update tmp x dir)"
      using shape by blast
    then show ?thesis using assms(1) by (auto simp: update_conv')
  qed
  moreover have "map_of (last states) name = Some (Regular content mode)" if "err = None"
    using shape that by (simp add: update_conv')
  ultimately show ?thesis using shape full by blast
qed

theorem copy_atomic_witness:
  "copyFile_trace [(''a.md'', Regular ''old'' 420)] ''a.md'' ''new'' 420 ''.copy-1'' (Some (CopyFails 2))
     = ([[(''a.md'', Regular ''old'' 420)],
         [(''a.md'', Regular ''old'' 420), (''.copy-1'', Regular [] 384)],
         [(''a.md'', Regular ''old'' 420), (''.copy-1'', Regular [] 420)],
         [(''a.md'', Regular ''old'' 420), (''.copy-1'', Regular ''n'' 420)],
         [(''a.md'', Regular ''old'' 420), (''.copy-1'', Regular ''ne'' 420)],
         [(''a.md'', Regular ''old'' 420)]], Some ErrCopying)
   \<and> last [[(''a.md'', Regular ''old'' 420)],
         [(''a.md'', Regular ''old'' 420), (''.copy-1'', Regular [] 384)],
         [(''a.md'', Regular ''old'' 420), (''.copy-1'', Regular [] 420)],
         [(''a.md'', Regular ''old'' 420), (''.copy-1'', Regular ''n'' 420)],
         [(''a.md'', Regular ''old'' 420), (''.copy-1'', Regular ''ne'' 420)],
         [(''a.md'', Regular ''old'' 420)]] = [(''a.md'', Regular ''old'' 420)]"
proof -
  have 1: "''.copy-1'' \<noteq> ''a.md''" by simp
  have 2: "copyFile_trace [(''a.md'', Regular ''old'' 420)] ''a.md'' ''new'' 420 ''.copy-1''
      (Some (CopyFails 2))
     = ([[(''a.md'', Regular ''old'' 420)],
         [(''a.md'', Regular ''old'' 420), (''.copy-1'', Regular [] 384)],
         [(''a.md'', Regular ''old'' 420), (''.copy-1'', Regular [] 420)],
         [(''a.md'', Regular ''old'' 420), (''.copy-1'', Regular ''n'' 420)],
         [(''a.md'', Regular ''old'' 420), (''.copy-1'', Regular ''ne'' 420)],
         [(''a.md'', Regular ''old'' 420)]], Some ErrCopying)"
    by (simp add: copyFile_trace_def Let_def upt_rec numeral_2_eq_2)
  from copy_atomic[OF 1 2] 2 show ?thesis by simp
qed



end
